theory Spec2Isabelle
  imports Complex_Main
begin

section \<open>JavaScript values\<close>

text \<open>
  The hook is generic in the payload type \<open>T\<close>; the values it handles are
  \<open>T | null | undefined\<close>. The equality predicate inspects them with \<open>===\<close>,
  \<open>!\<close> and \<open>typeof\<close>, so the model carries the JavaScript value kinds.
  Objects and functions are references (compared by address by \<open>===\<close>); what an
  object holds is seen only by the external deep comparator. Negative zero is
  identified with zero: \<open>===\<close> and \<open>!\<close> do not tell them apart.
\<close>

datatype jsnum = NaN | Finite real | PosInfinity | NegInfinity

datatype jsval =
    JUndefined
  | JNull
  | JBoolean bool
  | JNumber jsnum
  | JBigInt int
  | JString string
  | JSymbol nat
  | JFunction nat
  | JObject nat

text \<open>The \<open>typeof\<close> operator.\<close>

fun typeof :: "jsval \<Rightarrow> string" where
  "typeof JUndefined = ''undefined''"
| "typeof JNull = ''object''"
| "typeof (JBoolean b) = ''boolean''"
| "typeof (JNumber n) = ''number''"
| "typeof (JBigInt i) = ''bigint''"
| "typeof (JString s) = ''string''"
| "typeof (JSymbol r) = ''symbol''"
| "typeof (JFunction r) = ''function''"
| "typeof (JObject r) = ''object''"

text \<open>Strict equality \<open>a === b\<close>: the same value, except that \<open>NaN\<close> equals nothing.\<close>

definition strictEq :: "jsval \<Rightarrow> jsval \<Rightarrow> bool" where
  "strictEq a b = (a = b \<and> a \<noteq> JNumber NaN)"

text \<open>\<open>ToBoolean\<close>, so that \<open>!a\<close> is \<open>\<not> ToBoolean a\<close>.\<close>

fun ToBoolean :: "jsval \<Rightarrow> bool" where
  "ToBoolean JUndefined = False"
| "ToBoolean JNull = False"
| "ToBoolean (JBoolean b) = b"
| "ToBoolean (JNumber n) = (n \<noteq> NaN \<and> n \<noteq> Finite 0)"
| "ToBoolean (JBigInt i) = (i \<noteq> 0)"
| "ToBoolean (JString s) = (s \<noteq> [])"
| "ToBoolean (JSymbol r) = True"
| "ToBoolean (JFunction r) = True"
| "ToBoolean (JObject r) = True"

section \<open>The equality and validation predicates\<close>

text \<open>
  \<open>defaultIsEqual\<close>, with the calls it makes to the external deep comparator
  (\<open>fast-deep-equal\<close>, a parameter here) recorded: the result, and the list of
  argument pairs \<open>deepEqual\<close> was invoked with.
\<close>

definition defaultIsEqual_run ::
  "(jsval \<Rightarrow> jsval \<Rightarrow> bool) \<Rightarrow> jsval \<Rightarrow> jsval \<Rightarrow> bool \<times> (jsval \<times> jsval) list" where
  "defaultIsEqual_run deepEqual a b =
     (if strictEq a b then (True, [])
      else if \<not> ToBoolean a \<or> \<not> ToBoolean b then (False, [])
      else if typeof a \<noteq> ''object'' \<or> typeof b \<noteq> ''object'' then (False, [])
      else (deepEqual a b, [(a, b)]))"

definition defaultIsEqual :: "(jsval \<Rightarrow> jsval \<Rightarrow> bool) \<Rightarrow> jsval \<Rightarrow> jsval \<Rightarrow> bool" where
  "defaultIsEqual deepEqual a b = fst (defaultIsEqual_run deepEqual a b)"

text \<open>
  A zod schema is used through \<open>schema.safeParse(val).success\<close> only; \<open>safeParse\<close>
  reports a failed validation in its result and does not throw.
\<close>

record safeParseReturn =
  success :: bool

record zodSchema =
  safeParse :: "jsval \<Rightarrow> safeParseReturn"

definition validateWithSchema :: "zodSchema \<Rightarrow> jsval \<Rightarrow> bool" where
  "validateWithSchema schema val =
     (if strictEq val JNull then True else success (safeParse schema val))"

section \<open>Stores, the registry and the backing adapter\<close>

text \<open>
  The hook imports \<open>getStore\<close> from \<open>./components/store-registry\<close>, and uses of the
  Store it returns the fields \<open>listeners\<close>, \<open>value\<close>, \<open>isEqual\<close>, \<open>repairTo\<close> and the
  methods \<open>setValue\<close> and \<open>hydrate\<close>. The registry module is described by the
  specification (sections 3 to 5); its definitions below follow that text.
\<close>

text \<open>
  Modelled from the spec: the \<open>hydrationState\<close> of a Store (section 3), which the
  registry module keeps and the hook never reads.
\<close>

datatype hydrationState = NotStarted | InFlight | Done

type_synonym listener = nat

text \<open>A namespace \<open>{ dbName, storeName }\<close>; an omitted name is \<open>None\<close>.\<close>

record namespace =
  dbName :: "string option"
  storeName :: "string option"

text \<open>
  Modelled from the spec: the StoreIdentity of section 3, the composite key
  \<open>(namespace.dbName, namespace.storeName, key)\<close> under which the registry files a
  Store; two identities are equal iff all three components are.
\<close>

type_synonym storeIdentity = "string option \<times> string option \<times> string"

definition identityOf :: "namespace \<Rightarrow> string \<Rightarrow> storeIdentity" where
  "identityOf ns k = (dbName ns, storeName ns, k)"

text \<open>
  Modelled from the spec: the \<open>Store\<close> object of the store registry (section 3).
  \<open>storeValue\<close> is its \<open>value\<close> field, \<open>JUndefined\<close> while unresolved; \<open>written\<close> is
  the "has been explicitly written" flag that section 5 requires for the
  hydration-versus-write policy. \<open>listeners\<close> is a JavaScript \<open>Set\<close>, kept as the
  list of its members in insertion order.
\<close>

record store =
  ident :: storeIdentity
  storeValue :: jsval
  listeners :: "listener list"
  isValid :: "jsval \<Rightarrow> bool"
  isEqual :: "jsval \<Rightarrow> jsval \<Rightarrow> bool"
  repairTo :: jsval
  hydrationState :: hydrationState
  written :: bool

text \<open>\<open>Set.prototype.add\<close> and \<open>Set.prototype.delete\<close> (which returns whether the member was present).\<close>

definition Set_add :: "'a \<Rightarrow> 'a list \<Rightarrow> 'a list" where
  "Set_add x xs = (if x \<in> set xs then xs else xs @ [x])"

definition Set_delete :: "'a \<Rightarrow> 'a list \<Rightarrow> bool \<times> 'a list" where
  "Set_delete x xs = (x \<in> set xs, removeAll x xs)"

text \<open>
  Modelled from the spec: the process-wide registry map of sections 2 and 4.1, from
  identities to Stores, kept here with the rest of the state of the page: the
  Store objects (a Store reference is an index into \<open>stores\<close>), and what the
  outside world has seen so far, namely the reads and writes issued to the
  backing adapter and the listener invocations, in order.
\<close>

record sys =
  registry :: "storeIdentity \<rightharpoonup> nat"
  stores :: "store list"
  adapterGets :: "storeIdentity list"
  adapterPuts :: "(storeIdentity \<times> jsval) list"
  notified :: "listener list"

definition init :: sys where
  "init = \<lparr>registry = Map.empty, stores = [], adapterGets = [], adapterPuts = [], notified = []\<rparr>"

text \<open>
  Modelled from the spec: the Store that \<open>getStore\<close> constructs for an absent
  identity (section 4.1): \<open>NotStarted\<close>, the value unresolved, \<open>repairTo\<close> the initial
  value, the given predicates pinned, no listener.
\<close>

definition newStore ::
  "storeIdentity \<Rightarrow> jsval \<Rightarrow> (jsval \<Rightarrow> bool) \<Rightarrow> (jsval \<Rightarrow> jsval \<Rightarrow> bool) \<Rightarrow> store" where
  "newStore i initialValue valid eq =
     \<lparr>ident = i, storeValue = JUndefined, listeners = [], isValid = valid, isEqual = eq,
      repairTo = initialValue, hydrationState = NotStarted, written = False\<rparr>"

text \<open>
  Modelled from the spec: \<open>getStore\<close> of the store registry (section 4.1). An absent
  identity gets a new Store, which is inserted and returned; a present one is
  returned unchanged and the other arguments are discarded. Nothing else
  happens: no hydration.
\<close>

definition getStore ::
  "string \<Rightarrow> jsval \<Rightarrow> (jsval \<Rightarrow> bool) \<Rightarrow> (jsval \<Rightarrow> jsval \<Rightarrow> bool) \<Rightarrow> namespace \<Rightarrow> sys \<Rightarrow> nat \<times> sys" where
  "getStore k initialValue valid eq ns s =
     (case registry s (identityOf ns k) of
        Some r \<Rightarrow> (r, s)
      | None \<Rightarrow>
          (length (stores s),
           s\<lparr>registry := (registry s)(identityOf ns k \<mapsto> length (stores s)),
             stores := stores s @ [newStore (identityOf ns k) initialValue valid eq]\<rparr>))"

text \<open>
  Modelled from the spec: \<open>Store.setValue\<close> of the store registry (section 4.3). Given
  the value the caller settled on, the Store updates \<open>value\<close> in memory, notifies
  every attached listener, and issues the write to the backing adapter. A Store
  reference always denotes a live Store; the guard covers the other indices.
\<close>

definition Store_setValue :: "nat \<Rightarrow> jsval \<Rightarrow> sys \<Rightarrow> sys" where
  "Store_setValue r v s =
     (if r < length (stores s) then
        s\<lparr>stores := (stores s)[r := (stores s ! r)\<lparr>storeValue := v, written := True\<rparr>],
          adapterPuts := adapterPuts s @ [(ident (stores s ! r), v)],
          notified := notified s @ listeners (stores s ! r)\<rparr>
      else s)"

text \<open>
  Modelled from the spec: \<open>Store.hydrate\<close> of the store registry (section 4.2), in its
  two halves. The call returns at once unless the state is \<open>NotStarted\<close>; otherwise
  it moves to \<open>InFlight\<close> and issues the read.
\<close>

definition Store_hydrate :: "nat \<Rightarrow> sys \<Rightarrow> sys" where
  "Store_hydrate r s =
     (if r < length (stores s) then
        (if hydrationState (stores s ! r) \<noteq> NotStarted then s
         else s\<lparr>stores := (stores s)[r := (stores s ! r)\<lparr>hydrationState := InFlight\<rparr>],
                adapterGets := adapterGets s @ [ident (stores s ! r)]\<rparr>)
      else s)"

text \<open>
  Modelled from the spec: the continuation of \<open>Store.hydrate\<close> once the read settles
  (sections 4.2 and 5), with what the backing adapter answered. A valid persisted
  value is taken; an invalid or absent one gives \<open>repairTo\<close>, which is written back;
  a rejected read gives \<open>repairTo\<close> in memory. If a write happened in the interim
  the result is dropped. In every branch the state becomes \<open>Done\<close> and the
  listeners are notified once. There is a continuation only while \<open>InFlight\<close>.
\<close>

datatype readResult = Found jsval | NotFound | Rejected

text \<open>
  Modelled from the spec: the value hydration settles on (section 4.2), and the
  write-back it issues, for each answer of the backing adapter.
\<close>

definition hydratedValue :: "store \<Rightarrow> readResult \<Rightarrow> jsval" where
  "hydratedValue st res =
     (case res of
        Found v \<Rightarrow> if isValid st v then v else repairTo st
      | NotFound \<Rightarrow> repairTo st
      | Rejected \<Rightarrow> repairTo st)"

definition hydrationPuts :: "store \<Rightarrow> readResult \<Rightarrow> (storeIdentity \<times> jsval) list" where
  "hydrationPuts st res =
     (case res of
        Found v \<Rightarrow> if isValid st v then [] else [(ident st, repairTo st)]
      | NotFound \<Rightarrow> [(ident st, repairTo st)]
      | Rejected \<Rightarrow> [])"

text \<open>
  Modelled from the spec: the continuation itself (sections 4.2 and 5).
\<close>

definition Store_hydrate_resolved :: "nat \<Rightarrow> readResult \<Rightarrow> sys \<Rightarrow> sys" where
  "Store_hydrate_resolved r res s =
     (if r < length (stores s) \<and> hydrationState (stores s ! r) = InFlight then
        (if written (stores s ! r) then
           s\<lparr>stores := (stores s)[r := (stores s ! r)\<lparr>hydrationState := Done\<rparr>],
             notified := notified s @ listeners (stores s ! r)\<rparr>
         else
           s\<lparr>stores := (stores s)[r := (stores s ! r)
                \<lparr>storeValue := hydratedValue (stores s ! r) res, hydrationState := Done\<rparr>],
             adapterPuts := adapterPuts s @ hydrationPuts (stores s ! r) res,
             notified := notified s @ listeners (stores s ! r)\<rparr>)
      else s)"

section \<open>The hook\<close>

text \<open>
  What one render of \<open>useLocalDb\<close> binds and its callbacks close over: the Store,
  the snapshot \<open>value\<close> of \<open>store.value\<close>, and the hook's own \<open>isValid\<close>.
\<close>

record hook =
  hookStore :: nat
  hookValue :: jsval
  hookIsValid :: "jsval \<Rightarrow> bool"

text \<open>
  One render of a newly mounted \<open>useLocalDb\<close>. \<open>eq\<close> is the hook's \<open>isEqual\<close>: the
  imported \<open>isDeepEqual\<close> in \<open>use-local-db.ts\<close>, and \<open>defaultIsEqual\<close> in the
  other revision of the file. \<open>initialValue\<close> defaults to \<open>null\<close> when it is omitted.
\<close>

definition useLocalDb ::
  "(jsval \<Rightarrow> jsval \<Rightarrow> bool) \<Rightarrow> string \<Rightarrow> zodSchema \<Rightarrow> jsval \<Rightarrow> string option \<Rightarrow> string option
     \<Rightarrow> sys \<Rightarrow> hook \<times> sys" where
  "useLocalDb eq k schema initialValue db sn s =
     (let initialRef = (if initialValue = JUndefined then JNull else initialValue);
          ns = \<lparr>dbName = db, storeName = sn\<rparr>;
          valid = validateWithSchema schema;
          (r, s') = getStore k initialRef valid eq ns s
      in (\<lparr>hookStore = r, hookValue = storeValue (stores s' ! r), hookIsValid = valid\<rparr>, s'))"

text \<open>
  The subscribe argument of \<open>useSyncExternalStore\<close>:
  \<open>store.listeners.add(listener); return () => store.listeners.delete(listener)\<close>.
  The returned function is applied to the state at the time it is called.
\<close>

definition unsubscribe :: "nat \<Rightarrow> listener \<Rightarrow> sys \<Rightarrow> bool \<times> sys" where
  "unsubscribe r l s =
     (if r < length (stores s) then
        (fst (Set_delete l (listeners (stores s ! r))),
         s\<lparr>stores := (stores s)[r := (stores s ! r)
              \<lparr>listeners := snd (Set_delete l (listeners (stores s ! r)))\<rparr>]\<rparr>)
      else (False, s))"

definition subscribe :: "nat \<Rightarrow> listener \<Rightarrow> sys \<Rightarrow> (sys \<Rightarrow> bool \<times> sys) \<times> sys" where
  "subscribe r l s =
     (unsubscribe r l,
      if r < length (stores s) then
        s\<lparr>stores := (stores s)[r := (stores s ! r)
             \<lparr>listeners := Set_add l (listeners (stores s ! r))\<rparr>]\<rparr>
      else s)"

text \<open>
  \<open>setValue\<close>, in two steps. \<open>setValue_safe\<close> is the argument the callback passes to
  \<open>store.setValue\<close>: \<open>None\<close> when it returns early, else \<open>safe\<close>.
\<close>

definition setValue_safe :: "store \<Rightarrow> jsval \<Rightarrow> (jsval \<Rightarrow> bool) \<Rightarrow> jsval \<Rightarrow> jsval option" where
  "setValue_safe st val valid next =
     (if isEqual st val next then None
      else Some (if valid next then next else repairTo st))"

definition setValue :: "hook \<Rightarrow> jsval \<Rightarrow> sys \<Rightarrow> sys" where
  "setValue h next s =
     (case setValue_safe (stores s ! hookStore h) (hookValue h) (hookIsValid h) next of
        None \<Rightarrow> s
      | Some safe \<Rightarrow> Store_setValue (hookStore h) safe s)"

text \<open>The effect \<open>useEffect(() => { store.hydrate() }, [store])\<close>.\<close>

definition useEffect_hydrate :: "hook \<Rightarrow> sys \<Rightarrow> sys" where
  "useEffect_hydrate h s = Store_hydrate (hookStore h) s"

section \<open>Runs\<close>

text \<open>
  Everything that can happen on the single event loop, one action at a time: a
  component asks for a Store, a hook callback or effect runs, or a pending read
  of the backing adapter settles.
\<close>

datatype action =
    GetStore string jsval "jsval \<Rightarrow> bool" "jsval \<Rightarrow> jsval \<Rightarrow> bool" namespace
  | Hydrate nat
  | ReadSettled nat readResult
  | Subscribe nat listener
  | Unsubscribe nat listener
  | SetValue hook jsval

fun step :: "action \<Rightarrow> sys \<Rightarrow> sys" where
  "step (GetStore k iv valid eq ns) s = snd (getStore k iv valid eq ns s)"
| "step (Hydrate r) s = Store_hydrate r s"
| "step (ReadSettled r res) s = Store_hydrate_resolved r res s"
| "step (Subscribe r l) s = snd (subscribe r l s)"
| "step (Unsubscribe r l) s = snd (unsubscribe r l s)"
| "step (SetValue h next) s = setValue h next s"

definition run :: "action list \<Rightarrow> sys \<Rightarrow> sys" where
  "run as s = fold step as s"

text \<open>
  \<open>N\<close> call sites asking for the same key and namespace in one scheduling turn,
  each with its own initial value and predicates: the references they get, in
  order, and the state afterwards.
\<close>

fun getStoreN ::
  "string \<Rightarrow> namespace \<Rightarrow> (jsval \<times> (jsval \<Rightarrow> bool) \<times> (jsval \<Rightarrow> jsval \<Rightarrow> bool)) list \<Rightarrow> sys
     \<Rightarrow> nat list \<times> sys" where
  "getStoreN k ns [] s = ([], s)"
| "getStoreN k ns ((iv, valid, eq) # cs) s =
     (fst (getStore k iv valid eq ns s)
        # fst (getStoreN k ns cs (snd (getStore k iv valid eq ns s))),
      snd (getStoreN k ns cs (snd (getStore k iv valid eq ns s))))"

text \<open>
  The registry and the Stores agree: every registered reference denotes a Store
  filed under that identity, and every Store is registered under its own.
\<close>

definition reg_inv :: "sys \<Rightarrow> bool" where
  "reg_inv s \<longleftrightarrow>
     (\<forall>i r. registry s i = Some r \<longrightarrow> r < length (stores s) \<and> ident (stores s ! r) = i)
     \<and> (\<forall>r < length (stores s). registry s (ident (stores s ! r)) = Some r)"

section \<open>A concrete page\<close>

text \<open>
  Two components use the key \<open>k\<close> in the default namespace, the first with the
  schema \<open>z.number()\<close>, the second with \<open>z.string()\<close>, neither with an initial value.
  \<open>sameObjects\<close> is a deep comparator for a page whose objects all hold the same.
  \<open>z.number()\<close> accepts the finite numbers: not \<open>NaN\<close>, not an infinity.
\<close>

definition sameObjects :: "jsval \<Rightarrow> jsval \<Rightarrow> bool" where
  "sameObjects a b = True"

fun finiteNumber :: "jsval \<Rightarrow> bool" where
  "finiteNumber (JNumber (Finite x)) = True"
| "finiteNumber v = False"

definition numberSchema :: zodSchema where
  "numberSchema = \<lparr>safeParse = (\<lambda>v. \<lparr>success = finiteNumber v\<rparr>)\<rparr>"

definition stringSchema :: zodSchema where
  "stringSchema = \<lparr>safeParse = (\<lambda>v. \<lparr>success = (typeof v = ''string'')\<rparr>)\<rparr>"

definition hookA :: hook where
  "hookA = fst (useLocalDb (defaultIsEqual sameObjects) ''k'' numberSchema JUndefined None None init)"

definition sysA :: sys where
  "sysA = snd (useLocalDb (defaultIsEqual sameObjects) ''k'' numberSchema JUndefined None None init)"

definition hookB :: hook where
  "hookB = fst (useLocalDb (defaultIsEqual sameObjects) ''k'' stringSchema JUndefined None None sysA)"

definition sysB :: sys where
  "sysB = snd (useLocalDb (defaultIsEqual sameObjects) ''k'' stringSchema JUndefined None None sysA)"

text \<open>The same page once listener \<open>7\<close> has subscribed to the Store.\<close>

definition sysL :: sys where
  "sysL = snd (subscribe 0 7 sysA)"

text \<open>
  That page after the first component has called \<open>setValue(1)\<close> and before it has
  rendered again, and what the component binds once it has rendered again.
\<close>

definition sysW :: sys where
  "sysW = setValue hookA (JNumber (Finite 1)) sysL"

definition hookW :: hook where
  "hookW = fst (useLocalDb (defaultIsEqual sameObjects) ''k'' numberSchema JUndefined None None sysW)"


section \<open>Properties of the registry\<close>

lemma getStore_present:
  "registry s (identityOf ns k) = Some r \<Longrightarrow> getStore k iv valid eq ns s = (r, s)"
  by (simp add: getStore_def)

lemma getStore_registers:
  "registry (snd (getStore k iv valid eq ns s)) (identityOf ns k) = Some (fst (getStore k iv valid eq ns s))"
  by (simp add: getStore_def split: option.split)

lemma getStore_twice:
  "getStore k iv' valid' eq' ns (snd (getStore k iv valid eq ns s))
     = (fst (getStore k iv valid eq ns s), snd (getStore k iv valid eq ns s))"
  by (rule getStore_present) (rule getStore_registers)

lemma getStore_logs:
  "adapterGets (snd (getStore k iv valid eq ns s)) = adapterGets s"
  "adapterPuts (snd (getStore k iv valid eq ns s)) = adapterPuts s"
  "notified (snd (getStore k iv valid eq ns s)) = notified s"
  by (simp_all add: getStore_def split: option.split)

lemma getStore_length:
  "length (stores (snd (getStore k iv valid eq ns s)))
     = (case registry s (identityOf ns k) of None \<Rightarrow> Suc (length (stores s)) | Some r \<Rightarrow> length (stores s))"
  by (simp add: getStore_def split: option.split)

lemma getStore_old_store:
  "r < length (stores s) \<Longrightarrow> stores (snd (getStore k iv valid eq ns s)) ! r = stores s ! r"
  by (simp add: getStore_def nth_append split: option.split)

lemma getStore_registry_mono:
  "registry s i = Some r \<Longrightarrow> registry (snd (getStore k iv valid eq ns s)) i = Some r"
  by (auto simp add: getStore_def split: option.split)

lemma getStore_fresh_hydration:
  assumes "registry s (identityOf ns k) = None"
  shows "fst (getStore k iv valid eq ns s) < length (stores (snd (getStore k iv valid eq ns s)))"
    and "hydrationState (stores (snd (getStore k iv valid eq ns s)) ! fst (getStore k iv valid eq ns s)) = NotStarted"
    and "ident (stores (snd (getStore k iv valid eq ns s)) ! fst (getStore k iv valid eq ns s)) = identityOf ns k"
    and "isEqual (stores (snd (getStore k iv valid eq ns s)) ! fst (getStore k iv valid eq ns s)) = eq"
    and "isValid (stores (snd (getStore k iv valid eq ns s)) ! fst (getStore k iv valid eq ns s)) = valid"
    and "repairTo (stores (snd (getStore k iv valid eq ns s)) ! fst (getStore k iv valid eq ns s)) = iv"
  using assms by (simp_all add: getStore_def newStore_def)

lemma getStoreN_same:
  "registry s (identityOf ns k) = Some r \<Longrightarrow> getStoreN k ns cs s = (replicate (length cs) r, s)"
proof (induction cs)
  case Nil
  show ?case by simp
next
  case (Cons c cs)
  obtain iv valid eq where c: "c = (iv, valid, eq)" by (cases c) auto
  from Cons show ?case by (simp add: c getStore_present)
qed

lemma reg_invD1: "reg_inv s \<Longrightarrow> registry s i = Some r \<Longrightarrow> r < length (stores s)"
  unfolding reg_inv_def by blast

lemma reg_invD2: "reg_inv s \<Longrightarrow> registry s i = Some r \<Longrightarrow> ident (stores s ! r) = i"
  unfolding reg_inv_def by blast

lemma reg_invD3: "reg_inv s \<Longrightarrow> r < length (stores s) \<Longrightarrow> registry s (ident (stores s ! r)) = Some r"
  unfolding reg_inv_def by blast

lemma reg_invI:
  assumes "\<And>i r. registry s i = Some r \<Longrightarrow> r < length (stores s) \<and> ident (stores s ! r) = i"
    and "\<And>r. r < length (stores s) \<Longrightarrow> registry s (ident (stores s ! r)) = Some r"
  shows "reg_inv s"
  unfolding reg_inv_def using assms by blast

lemma reg_inv_init: "reg_inv init"
  by (simp add: reg_inv_def init_def)

lemma getStore_reg_inv:
  assumes inv: "reg_inv s"
  shows "reg_inv (snd (getStore k iv valid eq ns s))"
proof (cases "registry s (identityOf ns k)")
  case (Some r)
  then show ?thesis using inv by (simp add: getStore_def)
next
  case None
  define i0 where "i0 = identityOf ns k"
  define n where "n = length (stores s)"
  define s' where "s' = snd (getStore k iv valid eq ns s)"
  have reg': "registry s' = (registry s)(i0 \<mapsto> n)"
    and st': "stores s' = stores s @ [newStore i0 iv valid eq]"
    using None by (simp_all add: s'_def getStore_def i0_def n_def)
  have fresh: "ident (stores s ! r) \<noteq> i0" if "r < n" for r
  proof
    assume "ident (stores s ! r) = i0"
    with reg_invD3 [OF inv, of r] that have "registry s i0 = Some r" by (simp add: n_def)
    with None show False by (simp add: i0_def)
  qed
  have "reg_inv s'"
  proof (rule reg_invI)
    fix i r assume h: "registry s' i = Some r"
    show "r < length (stores s') \<and> ident (stores s' ! r) = i"
    proof (cases "i = i0")
      case True
      with h have "r = n" by (simp add: reg')
      with True show ?thesis by (simp add: st' n_def newStore_def)
    next
      case False
      with h have old: "registry s i = Some r" by (simp add: reg')
      from reg_invD1 [OF inv old] reg_invD2 [OF inv old] show ?thesis
        by (simp add: st' nth_append)
    qed
  next
    fix r assume "r < length (stores s')"
    then have "r < n \<or> r = n" by (auto simp: st' n_def)
    then show "registry s' (ident (stores s' ! r)) = Some r"
    proof
      assume lt: "r < n"
      then have "ident (stores s' ! r) = ident (stores s ! r)" by (simp add: st' nth_append n_def)
      moreover have "registry s (ident (stores s ! r)) = Some r"
        using reg_invD3 [OF inv] lt by (simp add: n_def)
      ultimately show ?thesis using fresh [OF lt] by (simp add: reg')
    next
      assume "r = n"
      then show ?thesis by (simp add: st' reg' n_def newStore_def)
    qed
  qed
  then show ?thesis by (simp add: s'_def)
qed

lemma reg_inv_distinct:
  assumes inv: "reg_inv s"
  shows "distinct (map ident (stores s))"
  unfolding distinct_conv_nth
proof (intro allI impI)
  fix r r'
  assume "r < length (map ident (stores s))" "r' < length (map ident (stores s))" "r \<noteq> r'"
  then have lt: "r < length (stores s)" "r' < length (stores s)" and ne: "r \<noteq> r'"
    by simp_all
  from reg_invD3 [OF inv lt(1)] reg_invD3 [OF inv lt(2)] ne
  have "ident (stores s ! r) \<noteq> ident (stores s ! r')"
    by auto
  with lt show "map ident (stores s) ! r \<noteq> map ident (stores s) ! r'"
    by simp
qed

section \<open>What the Store operations leave alone\<close>

lemma nth_update_field:
  "f y = f (xs ! r) \<Longrightarrow> f (xs[r := y] ! r') = f (xs ! r')"
  by (cases "r < length xs"; cases "r = r'") (simp_all add: list_update_beyond)

lemmas nth_update_fields =
  nth_update_field [where f = ident] nth_update_field [where f = isValid]
  nth_update_field [where f = isEqual] nth_update_field [where f = repairTo]
  nth_update_field [where f = hydrationState] nth_update_field [where f = listeners]
  nth_update_field [where f = storeValue]

lemma Store_setValue_frame:
  "registry (Store_setValue r v s) = registry s"
  "length (stores (Store_setValue r v s)) = length (stores s)"
  "ident (stores (Store_setValue r v s) ! r') = ident (stores s ! r')"
  "isValid (stores (Store_setValue r v s) ! r') = isValid (stores s ! r')"
  "isEqual (stores (Store_setValue r v s) ! r') = isEqual (stores s ! r')"
  "repairTo (stores (Store_setValue r v s) ! r') = repairTo (stores s ! r')"
  "hydrationState (stores (Store_setValue r v s) ! r') = hydrationState (stores s ! r')"
  "listeners (stores (Store_setValue r v s) ! r') = listeners (stores s ! r')"
  "adapterGets (Store_setValue r v s) = adapterGets s"
  by (simp_all add: Store_setValue_def nth_update_fields)

lemma Store_hydrate_frame:
  "registry (Store_hydrate r s) = registry s"
  "length (stores (Store_hydrate r s)) = length (stores s)"
  "ident (stores (Store_hydrate r s) ! r') = ident (stores s ! r')"
  "isValid (stores (Store_hydrate r s) ! r') = isValid (stores s ! r')"
  "isEqual (stores (Store_hydrate r s) ! r') = isEqual (stores s ! r')"
  "repairTo (stores (Store_hydrate r s) ! r') = repairTo (stores s ! r')"
  "listeners (stores (Store_hydrate r s) ! r') = listeners (stores s ! r')"
  "adapterPuts (Store_hydrate r s) = adapterPuts s"
  "notified (Store_hydrate r s) = notified s"
  by (simp_all add: Store_hydrate_def nth_update_fields)

lemma Store_hydrate_resolved_frame:
  "registry (Store_hydrate_resolved r res s) = registry s"
  "length (stores (Store_hydrate_resolved r res s)) = length (stores s)"
  "ident (stores (Store_hydrate_resolved r res s) ! r') = ident (stores s ! r')"
  "isValid (stores (Store_hydrate_resolved r res s) ! r') = isValid (stores s ! r')"
  "isEqual (stores (Store_hydrate_resolved r res s) ! r') = isEqual (stores s ! r')"
  "repairTo (stores (Store_hydrate_resolved r res s) ! r') = repairTo (stores s ! r')"
  "listeners (stores (Store_hydrate_resolved r res s) ! r') = listeners (stores s ! r')"
  "adapterGets (Store_hydrate_resolved r res s) = adapterGets s"
  by (simp_all add: Store_hydrate_resolved_def nth_update_fields)

lemma subscribe_frame:
  "registry (snd (subscribe r l s)) = registry s"
  "length (stores (snd (subscribe r l s))) = length (stores s)"
  "ident (stores (snd (subscribe r l s)) ! r') = ident (stores s ! r')"
  "isValid (stores (snd (subscribe r l s)) ! r') = isValid (stores s ! r')"
  "isEqual (stores (snd (subscribe r l s)) ! r') = isEqual (stores s ! r')"
  "repairTo (stores (snd (subscribe r l s)) ! r') = repairTo (stores s ! r')"
  "hydrationState (stores (snd (subscribe r l s)) ! r') = hydrationState (stores s ! r')"
  "storeValue (stores (snd (subscribe r l s)) ! r') = storeValue (stores s ! r')"
  "adapterGets (snd (subscribe r l s)) = adapterGets s"
  "adapterPuts (snd (subscribe r l s)) = adapterPuts s"
  "notified (snd (subscribe r l s)) = notified s"
  by (simp_all add: subscribe_def nth_update_fields)

lemma unsubscribe_frame:
  "registry (snd (unsubscribe r l s)) = registry s"
  "length (stores (snd (unsubscribe r l s))) = length (stores s)"
  "ident (stores (snd (unsubscribe r l s)) ! r') = ident (stores s ! r')"
  "isValid (stores (snd (unsubscribe r l s)) ! r') = isValid (stores s ! r')"
  "isEqual (stores (snd (unsubscribe r l s)) ! r') = isEqual (stores s ! r')"
  "repairTo (stores (snd (unsubscribe r l s)) ! r') = repairTo (stores s ! r')"
  "hydrationState (stores (snd (unsubscribe r l s)) ! r') = hydrationState (stores s ! r')"
  "storeValue (stores (snd (unsubscribe r l s)) ! r') = storeValue (stores s ! r')"
  "adapterGets (snd (unsubscribe r l s)) = adapterGets s"
  "adapterPuts (snd (unsubscribe r l s)) = adapterPuts s"
  "notified (snd (unsubscribe r l s)) = notified s"
  by (simp_all add: unsubscribe_def nth_update_fields)

lemma setValue_frame:
  "registry (setValue h v s) = registry s"
  "length (stores (setValue h v s)) = length (stores s)"
  "ident (stores (setValue h v s) ! r') = ident (stores s ! r')"
  "isValid (stores (setValue h v s) ! r') = isValid (stores s ! r')"
  "isEqual (stores (setValue h v s) ! r') = isEqual (stores s ! r')"
  "repairTo (stores (setValue h v s) ! r') = repairTo (stores s ! r')"
  "hydrationState (stores (setValue h v s) ! r') = hydrationState (stores s ! r')"
  "listeners (stores (setValue h v s) ! r') = listeners (stores s ! r')"
  "adapterGets (setValue h v s) = adapterGets s"
  by (simp_all add: setValue_def Store_setValue_frame split: option.split)

section \<open>Invariants of runs\<close>

lemma step_length: "length (stores s) \<le> length (stores (step a s))"
  by (cases a)
    (simp_all add: getStore_length Store_hydrate_frame Store_hydrate_resolved_frame
      subscribe_frame unsubscribe_frame setValue_frame split: option.split)

lemma step_registry: "registry s i = Some r \<Longrightarrow> registry (step a s) i = Some r"
  by (cases a)
    (simp_all add: getStore_registry_mono Store_hydrate_frame Store_hydrate_resolved_frame
      subscribe_frame unsubscribe_frame setValue_frame)

lemma step_pinned:
  assumes "r < length (stores s)"
  shows "ident (stores (step a s) ! r) = ident (stores s ! r)"
    and "isValid (stores (step a s) ! r) = isValid (stores s ! r)"
    and "isEqual (stores (step a s) ! r) = isEqual (stores s ! r)"
    and "repairTo (stores (step a s) ! r) = repairTo (stores s ! r)"
  using assms
  by (cases a;
      simp add: getStore_old_store Store_hydrate_frame Store_hydrate_resolved_frame
        subscribe_frame unsubscribe_frame setValue_frame)+

lemma step_reg_inv:
  assumes inv: "reg_inv s"
  shows "reg_inv (step a s)"
proof (cases a)
  case (GetStore k iv valid eq ns)
  then show ?thesis using getStore_reg_inv [OF inv] by simp
next
  case (Hydrate r)
  show ?thesis using inv unfolding reg_inv_def Hydrate by (simp add: Store_hydrate_frame)
next
  case (ReadSettled r res)
  show ?thesis using inv unfolding reg_inv_def ReadSettled by (simp add: Store_hydrate_resolved_frame)
next
  case (Subscribe r l)
  show ?thesis using inv unfolding reg_inv_def Subscribe by (simp add: subscribe_frame)
next
  case (Unsubscribe r l)
  show ?thesis using inv unfolding reg_inv_def Unsubscribe by (simp add: unsubscribe_frame)
next
  case (SetValue h v)
  show ?thesis using inv unfolding reg_inv_def SetValue by (simp add: setValue_frame)
qed

lemma run_Nil: "run [] s = s"
  by (simp add: run_def)

lemma run_Cons: "run (a # as) s = run as (step a s)"
  by (simp add: run_def)

lemma run_registry: "registry s i = Some r \<Longrightarrow> registry (run as s) i = Some r"
  by (induction as arbitrary: s) (simp_all add: run_Nil run_Cons step_registry)

lemma run_reg_inv: "reg_inv s \<Longrightarrow> reg_inv (run as s)"
  by (induction as arbitrary: s) (simp_all add: run_Nil run_Cons step_reg_inv)

lemma run_pinned:
  "r < length (stores s) \<Longrightarrow>
   ident (stores (run as s) ! r) = ident (stores s ! r)
   \<and> isValid (stores (run as s) ! r) = isValid (stores s ! r)
   \<and> isEqual (stores (run as s) ! r) = isEqual (stores s ! r)
   \<and> repairTo (stores (run as s) ! r) = repairTo (stores s ! r)"
proof (induction as arbitrary: s)
  case Nil
  show ?case by (simp add: run_Nil)
next
  case (Cons a as)
  from Cons.prems step_length [of s a] have "r < length (stores (step a s))" by simp
  from Cons.IH [OF this] step_pinned [OF Cons.prems, of a] show ?case
    by (simp add: run_Cons)
qed

section \<open>Hydration\<close>

lemma Store_hydrate_started:
  "hydrationState (stores s ! r) \<noteq> NotStarted \<Longrightarrow> Store_hydrate r s = s"
  by (simp add: Store_hydrate_def)

lemma Store_hydrate_first:
  assumes "r < length (stores s)" "hydrationState (stores s ! r) = NotStarted"
  shows "adapterGets (Store_hydrate r s) = adapterGets s @ [ident (stores s ! r)]"
    and "hydrationState (stores (Store_hydrate r s) ! r) = InFlight"
  using assms by (simp_all add: Store_hydrate_def)

lemma Store_hydrate_other:
  "r' \<noteq> r \<Longrightarrow> hydrationState (stores (Store_hydrate r' s) ! r) = hydrationState (stores s ! r)"
  by (simp add: Store_hydrate_def)

lemma Store_hydrate_gets:
  "adapterGets (Store_hydrate r s)
     = adapterGets s @ (if r < length (stores s) \<and> hydrationState (stores s ! r) = NotStarted
                        then [ident (stores s ! r)] else [])"
  by (simp add: Store_hydrate_def)

lemma Store_hydrate_idem: "Store_hydrate r (Store_hydrate r s) = Store_hydrate r s"
proof (cases "r < length (stores s) \<and> hydrationState (stores s ! r) = NotStarted")
  case True
  then have "hydrationState (stores (Store_hydrate r s) ! r) \<noteq> NotStarted"
    by (simp add: Store_hydrate_first)
  then show ?thesis by (rule Store_hydrate_started)
next
  case False
  then have "Store_hydrate r s = s" by (auto simp: Store_hydrate_def)
  then show ?thesis by simp
qed

lemma Store_hydrate_funpow:
  "(Store_hydrate r ^^ Suc k) s = Store_hydrate r s"
  by (induction k) (simp_all add: Store_hydrate_idem)

lemma Store_hydrate_resolved_NotStarted:
  "(hydrationState (stores (Store_hydrate_resolved r' res s) ! r) = NotStarted)
     = (hydrationState (stores s ! r) = NotStarted)"
proof (cases "r' < length (stores s) \<and> hydrationState (stores s ! r') = InFlight")
  case True
  then show ?thesis
    by (cases "r' = r") (auto simp: Store_hydrate_resolved_def)
next
  case False
  then have "Store_hydrate_resolved r' res s = s" by (auto simp: Store_hydrate_resolved_def)
  then show ?thesis by simp
qed

lemma Store_hydrate_resolved_idem:
  "Store_hydrate_resolved r res' (Store_hydrate_resolved r res s) = Store_hydrate_resolved r res s"
proof (cases "r < length (stores s) \<and> hydrationState (stores s ! r) = InFlight")
  case True
  then have "hydrationState (stores (Store_hydrate_resolved r res s) ! r) = Done"
    by (simp add: Store_hydrate_resolved_def)
  then show ?thesis by (simp add: Store_hydrate_resolved_def)
next
  case False
  then have "Store_hydrate_resolved r res s = s" by (auto simp: Store_hydrate_resolved_def)
  moreover from False have "Store_hydrate_resolved r res' s = s" by (auto simp: Store_hydrate_resolved_def)
  ultimately show ?thesis by simp
qed

lemma step_NotStarted:
  assumes "r < length (stores s)"
  shows "(hydrationState (stores (step a s) ! r) = NotStarted)
     = (hydrationState (stores s ! r) = NotStarted \<and> a \<noteq> Hydrate r)"
proof (cases a)
  case (GetStore k iv valid eq ns)
  then show ?thesis using assms by (simp add: getStore_old_store)
next
  case (Hydrate r')
  show ?thesis
  proof (cases "r' = r")
    case True
    then show ?thesis using assms Hydrate
      by (cases "hydrationState (stores s ! r) = NotStarted")
        (simp_all add: Store_hydrate_first Store_hydrate_started)
  next
    case False
    then show ?thesis using Hydrate by (simp add: Store_hydrate_other)
  qed
next
  case (ReadSettled r' res)
  then show ?thesis by (simp add: Store_hydrate_resolved_NotStarted)
next
  case (Subscribe r' l)
  then show ?thesis by (simp add: subscribe_frame)
next
  case (Unsubscribe r' l)
  then show ?thesis by (simp add: unsubscribe_frame)
next
  case (SetValue h v)
  then show ?thesis by (simp add: setValue_frame)
qed

lemma step_gets:
  assumes inv: "reg_inv s" and lt: "r < length (stores s)"
  shows "count_list (adapterGets (step a s)) (ident (stores s ! r))
     = count_list (adapterGets s) (ident (stores s ! r))
       + (if a = Hydrate r \<and> hydrationState (stores s ! r) = NotStarted then 1 else 0)"
proof (cases a)
  case (GetStore k iv valid eq ns)
  then show ?thesis by (simp add: getStore_logs)
next
  case (Hydrate r')
  show ?thesis
  proof (cases "r' = r")
    case True
    then show ?thesis using lt Hydrate by (simp add: Store_hydrate_gets)
  next
    case False
    have "ident (stores s ! r') \<noteq> ident (stores s ! r)" if "r' < length (stores s)"
      using reg_invD3 [OF inv that] reg_invD3 [OF inv lt] False by auto
    then show ?thesis using False Hydrate by (simp add: Store_hydrate_gets)
  qed
next
  case (ReadSettled r' res)
  then show ?thesis by (simp add: Store_hydrate_resolved_frame)
next
  case (Subscribe r' l)
  then show ?thesis by (simp add: subscribe_frame)
next
  case (Unsubscribe r' l)
  then show ?thesis by (simp add: unsubscribe_frame)
next
  case (SetValue h v)
  then show ?thesis by (simp add: setValue_frame)
qed

lemma run_gets:
  assumes "reg_inv s" "r < length (stores s)"
  shows "count_list (adapterGets (run as s)) (ident (stores s ! r))
     = count_list (adapterGets s) (ident (stores s ! r))
       + (if Hydrate r \<in> set as \<and> hydrationState (stores s ! r) = NotStarted then 1 else 0)"
  using assms
proof (induction as arbitrary: s)
  case Nil
  show ?case by (simp add: run_Nil)
next
  case (Cons a as)
  let ?s = "step a s"
  have inv': "reg_inv ?s" using Cons.prems(1) by (rule step_reg_inv)
  have lt': "r < length (stores ?s)" using Cons.prems(2) step_length [of s a] by simp
  have id': "ident (stores ?s ! r) = ident (stores s ! r)"
    using Cons.prems(2) by (rule step_pinned)
  note ih = Cons.IH [OF inv' lt', unfolded id']
  note one = step_gets [OF Cons.prems, of a]
  note ns = step_NotStarted [OF Cons.prems(2), of a]
  show ?case
    unfolding run_Cons ih one ns by auto
qed

section \<open>Listeners\<close>

lemma subscribe_listeners:
  "r < length (stores s) \<Longrightarrow>
   listeners (stores (snd (subscribe r cb s)) ! r) = Set_add cb (listeners (stores s ! r))"
  by (simp add: subscribe_def)

lemma unsubscribe_listeners:
  "r < length (stores s) \<Longrightarrow>
   listeners (stores (snd (unsubscribe r cb s)) ! r) = removeAll cb (listeners (stores s ! r))"
  by (simp add: unsubscribe_def Set_delete_def)

lemma removeAll_Set_add: "removeAll x (Set_add x xs) = removeAll x xs"
  by (simp add: Set_add_def)

lemma unsubscribe_after_subscribe_fresh:
  assumes "r < length (stores s)" "cb \<notin> set (listeners (stores s ! r))"
  shows "snd (unsubscribe r cb (snd (subscribe r cb s))) = s"
proof -
  have "(stores s ! r)\<lparr>listeners := listeners (stores s ! r)\<rparr> = stores s ! r"
    by simp
  then show ?thesis
    using assms by (simp add: subscribe_def unsubscribe_def Set_add_def Set_delete_def)
qed

section \<open>The hook and the concrete page\<close>

lemma ToBoolean_object: "typeof v = ''object'' \<Longrightarrow> v \<noteq> JNull \<Longrightarrow> ToBoolean v"
  by (cases v) simp_all

lemma useLocalDb_eq:
  "useLocalDb eq k schema iv db sn s =
     (\<lparr>hookStore = fst (getStore k (if iv = JUndefined then JNull else iv)
                          (validateWithSchema schema) eq \<lparr>dbName = db, storeName = sn\<rparr> s),
       hookValue = storeValue
         (stores (snd (getStore k (if iv = JUndefined then JNull else iv)
                          (validateWithSchema schema) eq \<lparr>dbName = db, storeName = sn\<rparr> s))
          ! fst (getStore k (if iv = JUndefined then JNull else iv)
                          (validateWithSchema schema) eq \<lparr>dbName = db, storeName = sn\<rparr> s)),
       hookIsValid = validateWithSchema schema\<rparr>,
      snd (getStore k (if iv = JUndefined then JNull else iv)
                          (validateWithSchema schema) eq \<lparr>dbName = db, storeName = sn\<rparr> s))"
  by (simp add: useLocalDb_def Let_def split: prod.split)

lemma sysA_eval:
  "sysA = \<lparr>registry = [(None, None, ''k'') \<mapsto> 0],
           stores = [newStore (None, None, ''k'') JNull (validateWithSchema numberSchema)
                       (defaultIsEqual sameObjects)],
           adapterGets = [], adapterPuts = [], notified = []\<rparr>"
  by (simp add: sysA_def useLocalDb_eq getStore_def init_def identityOf_def)

lemma hookA_eval:
  "hookA = \<lparr>hookStore = 0, hookValue = JUndefined, hookIsValid = validateWithSchema numberSchema\<rparr>"
  by (simp add: hookA_def useLocalDb_eq getStore_def init_def identityOf_def newStore_def)

lemma sysB_eval: "sysB = sysA"
  by (simp add: sysB_def sysA_eval useLocalDb_eq getStore_def identityOf_def)

lemma hookB_eval:
  "hookB = \<lparr>hookStore = 0, hookValue = JUndefined, hookIsValid = validateWithSchema stringSchema\<rparr>"
  by (simp add: hookB_def sysA_eval useLocalDb_eq getStore_def identityOf_def newStore_def)

lemma sysL_eval:
  "sysL = \<lparr>registry = [(None, None, ''k'') \<mapsto> 0],
           stores = [(newStore (None, None, ''k'') JNull (validateWithSchema numberSchema)
                       (defaultIsEqual sameObjects))\<lparr>listeners := [7]\<rparr>],
           adapterGets = [], adapterPuts = [], notified = []\<rparr>"
  by (simp add: sysL_def sysA_eval subscribe_def Set_add_def newStore_def)

lemma isEqual_sysA: "isEqual (stores sysA ! 0) = defaultIsEqual sameObjects"
  by (simp add: sysA_eval newStore_def)

lemma repairTo_sysA: "repairTo (stores sysA ! 0) = JNull"
  by (simp add: sysA_eval newStore_def)

lemma ident_sysA: "ident (stores sysA ! 0) = (None, None, ''k'')"
  by (simp add: sysA_eval newStore_def)

lemma listeners_sysA: "listeners (stores sysA ! 0) = []"
  by (simp add: sysA_eval newStore_def)

lemma length_sysA: "length (stores sysA) = 1"
  by (simp add: sysA_eval)

lemma hydration_sysA: "hydrationState (stores sysA ! 0) = NotStarted"
  by (simp add: sysA_eval newStore_def)

lemma logs_sysA: "adapterGets sysA = []" "adapterPuts sysA = []" "notified sysA = []"
  by (simp_all add: sysA_eval)

lemma not_eq_undefined_number:
  "\<not> defaultIsEqual sameObjects JUndefined (JNumber (Finite 1))"
  "\<not> defaultIsEqual sameObjects JUndefined (JString ''x'')"
  "\<not> defaultIsEqual sameObjects JUndefined JNull"
  "defaultIsEqual sameObjects JUndefined JUndefined"
  by (simp_all add: defaultIsEqual_def defaultIsEqual_run_def strictEq_def)

lemma numberSchema_eval:
  "validateWithSchema numberSchema (JNumber (Finite 1))"
  "\<not> validateWithSchema numberSchema (JString ''x'')"
  "validateWithSchema stringSchema (JString ''x'')"
  "\<not> validateWithSchema stringSchema (JNumber (Finite 1))"
  by (simp_all add: validateWithSchema_def numberSchema_def stringSchema_def strictEq_def)

lemma run_mount_sysA:
  "run [GetStore ''k'' JNull (validateWithSchema numberSchema) (defaultIsEqual sameObjects)
          \<lparr>dbName = None, storeName = None\<rparr>] init = sysA"
  by (simp add: run_def sysA_def useLocalDb_eq)

lemma run_mount_started:
  "run [GetStore ''k'' JNull (validateWithSchema numberSchema) (defaultIsEqual sameObjects)
          \<lparr>dbName = None, storeName = None\<rparr>, Hydrate 0] init = Store_hydrate 0 sysA"
  by (simp add: run_def sysA_def useLocalDb_eq)

lemma sysW_eval:
  "sysW = \<lparr>registry = [(None, None, ''k'') \<mapsto> 0],
           stores = [(newStore (None, None, ''k'') JNull (validateWithSchema numberSchema)
                       (defaultIsEqual sameObjects))
                     \<lparr>storeValue := JNumber (Finite 1), listeners := [7], written := True\<rparr>],
           adapterGets = [], adapterPuts = [((None, None, ''k''), JNumber (Finite 1))],
           notified = [7]\<rparr>"
  by (simp add: sysW_def sysL_eval hookA_eval setValue_def setValue_safe_def Store_setValue_def
      newStore_def not_eq_undefined_number numberSchema_eval)

lemma hookW_eval:
  "hookW = \<lparr>hookStore = 0, hookValue = JNumber (Finite 1), hookIsValid = validateWithSchema numberSchema\<rparr>"
  by (simp add: hookW_def sysW_eval useLocalDb_eq getStore_def identityOf_def newStore_def)

lemma eq_one_one: "defaultIsEqual sameObjects (JNumber (Finite 1)) (JNumber (Finite 1))"
  by (simp add: defaultIsEqual_def defaultIsEqual_run_def strictEq_def)

section \<open>The claims\<close>

text \<open>
  C1. For every store identity, any two calls to \<open>getStore\<close> with the same
  \<open>(dbName, storeName, key)\<close> return the identical Store: the second call, whatever
  initial value and predicates it brings, returns the reference of the first and
  changes nothing, whether it follows at once or after any run of other actions;
  \<open>N\<close> call sites in one scheduling turn all get that one reference. \<open>getStore\<close>
  itself reads and writes nothing. When the identity is new and every call site
  then hydrates the Store it got, exactly one read goes to the backing adapter
  and no write; a read that has settled does not settle again, and its
  write-back is at most one row. In every state reachable from the empty page
  no two Stores have the same identity.
\<close>

theorem getStore_one_store_per_identity:
  "getStore k iv' valid' eq' ns (snd (getStore k iv valid eq ns s))
       = (fst (getStore k iv valid eq ns s), snd (getStore k iv valid eq ns s))
   \<and> getStore k iv' valid' eq' ns (run as (snd (getStore k iv valid eq ns s)))
       = (fst (getStore k iv valid eq ns s), run as (snd (getStore k iv valid eq ns s)))
   \<and> getStoreN k ns ((iv, valid, eq) # cs) s
       = (replicate (Suc (length cs)) (fst (getStore k iv valid eq ns s)), snd (getStore k iv valid eq ns s))
   \<and> adapterGets (snd (getStoreN k ns ((iv, valid, eq) # cs) s)) = adapterGets s
   \<and> adapterPuts (snd (getStoreN k ns ((iv, valid, eq) # cs) s)) = adapterPuts s
   \<and> length (stores (snd (getStoreN k ns ((iv, valid, eq) # cs) s))) \<le> Suc (length (stores s))
   \<and> (registry s (identityOf ns k) = None \<longrightarrow>
        adapterGets (fold Store_hydrate (fst (getStoreN k ns ((iv, valid, eq) # cs) s))
                       (snd (getStoreN k ns ((iv, valid, eq) # cs) s)))
          = adapterGets s @ [identityOf ns k]
        \<and> adapterPuts (fold Store_hydrate (fst (getStoreN k ns ((iv, valid, eq) # cs) s))
                       (snd (getStoreN k ns ((iv, valid, eq) # cs) s)))
          = adapterPuts s)
   \<and> Store_hydrate_resolved r res' (Store_hydrate_resolved r res s) = Store_hydrate_resolved r res s
   \<and> length (hydrationPuts st res) \<le> 1
   \<and> distinct (map ident (stores (run bs init)))"
proof -
  let ?r = "fst (getStore k iv valid eq ns s)"
  let ?s1 = "snd (getStore k iv valid eq ns s)"
  have reg: "registry ?s1 (identityOf ns k) = Some ?r"
    by (rule getStore_registers)
  have two: "getStore k iv' valid' eq' ns ?s1 = (?r, ?s1)"
    by (rule getStore_twice)
  have later: "getStore k iv' valid' eq' ns (run as ?s1) = (?r, run as ?s1)"
    by (rule getStore_present) (rule run_registry [OF reg])
  have n: "getStoreN k ns ((iv, valid, eq) # cs) s = (replicate (Suc (length cs)) ?r, ?s1)"
  proof -
    from reg have "getStoreN k ns cs ?s1 = (replicate (length cs) ?r, ?s1)"
      by (rule getStoreN_same)
    then show ?thesis by simp
  qed
  have len: "length (stores ?s1) \<le> Suc (length (stores s))"
    by (simp add: getStore_length split: option.split)
  have hyd: "adapterGets (fold Store_hydrate (replicate (Suc (length cs)) ?r) ?s1)
          = adapterGets s @ [identityOf ns k]
        \<and> adapterPuts (fold Store_hydrate (replicate (Suc (length cs)) ?r) ?s1) = adapterPuts s"
    if fresh: "registry s (identityOf ns k) = None"
  proof -
    have "fold Store_hydrate (replicate (Suc (length cs)) ?r) ?s1 = (Store_hydrate ?r ^^ Suc (length cs)) ?s1"
      by (simp only: fold_replicate)
    also have "\<dots> = Store_hydrate ?r ?s1" by (rule Store_hydrate_funpow)
    finally have e: "fold Store_hydrate (replicate (Suc (length cs)) ?r) ?s1 = Store_hydrate ?r ?s1" .
    show ?thesis
      unfolding e
      by (simp add: Store_hydrate_gets Store_hydrate_frame getStore_fresh_hydration [OF fresh] getStore_logs)
  qed
  have once: "Store_hydrate_resolved r res' (Store_hydrate_resolved r res s) = Store_hydrate_resolved r res s"
    by (rule Store_hydrate_resolved_idem)
  have row: "length (hydrationPuts st res) \<le> 1"
    by (simp add: hydrationPuts_def split: readResult.split)
  have dist: "distinct (map ident (stores (run bs init)))"
    by (rule reg_inv_distinct [OF run_reg_inv [OF reg_inv_init]])
  show ?thesis
    unfolding n two later fst_conv snd_conv using len hyd once row dist
    by (simp add: getStore_logs)
qed

theorem getStore_one_store_per_identity_witness:
  "registry init (identityOf \<lparr>dbName = None, storeName = None\<rparr> ''k'') = None
   \<and> fst (getStoreN ''k'' \<lparr>dbName = None, storeName = None\<rparr>
        [(JNull, validateWithSchema numberSchema, defaultIsEqual sameObjects),
         (JNull, validateWithSchema stringSchema, defaultIsEqual sameObjects)] init) = [0, 0]
   \<and> adapterGets (fold Store_hydrate
        (fst (getStoreN ''k'' \<lparr>dbName = None, storeName = None\<rparr>
          [(JNull, validateWithSchema numberSchema, defaultIsEqual sameObjects),
           (JNull, validateWithSchema stringSchema, defaultIsEqual sameObjects)] init))
        (snd (getStoreN ''k'' \<lparr>dbName = None, storeName = None\<rparr>
          [(JNull, validateWithSchema numberSchema, defaultIsEqual sameObjects),
           (JNull, validateWithSchema stringSchema, defaultIsEqual sameObjects)] init)))
       = [(None, None, ''k'')]"
proof -
  have fresh: "registry init (identityOf \<lparr>dbName = None, storeName = None\<rparr> ''k'') = None"
    by (simp add: init_def)
  have r0: "fst (getStore ''k'' JNull (validateWithSchema numberSchema) (defaultIsEqual sameObjects)
              \<lparr>dbName = None, storeName = None\<rparr> init) = 0"
    by (simp add: getStore_def init_def)
  have g0: "adapterGets init = []" by (simp add: init_def)
  note t = getStore_one_store_per_identity
    [where k = "''k''" and iv = JNull and valid = "validateWithSchema numberSchema"
       and eq = "defaultIsEqual sameObjects" and ns = "\<lparr>dbName = None, storeName = None\<rparr>"
       and s = init and cs = "[(JNull, validateWithSchema stringSchema, defaultIsEqual sameObjects)]"]
  from t have n: "getStoreN ''k'' \<lparr>dbName = None, storeName = None\<rparr>
        [(JNull, validateWithSchema numberSchema, defaultIsEqual sameObjects),
         (JNull, validateWithSchema stringSchema, defaultIsEqual sameObjects)] init
      = (replicate (Suc (length [(JNull, validateWithSchema stringSchema, defaultIsEqual sameObjects)]))
           (fst (getStore ''k'' JNull (validateWithSchema numberSchema) (defaultIsEqual sameObjects)
              \<lparr>dbName = None, storeName = None\<rparr> init)),
         snd (getStore ''k'' JNull (validateWithSchema numberSchema) (defaultIsEqual sameObjects)
              \<lparr>dbName = None, storeName = None\<rparr> init))"
    by blast
  from t fresh have h: "adapterGets (fold Store_hydrate
        (fst (getStoreN ''k'' \<lparr>dbName = None, storeName = None\<rparr>
          [(JNull, validateWithSchema numberSchema, defaultIsEqual sameObjects),
           (JNull, validateWithSchema stringSchema, defaultIsEqual sameObjects)] init))
        (snd (getStoreN ''k'' \<lparr>dbName = None, storeName = None\<rparr>
          [(JNull, validateWithSchema numberSchema, defaultIsEqual sameObjects),
           (JNull, validateWithSchema stringSchema, defaultIsEqual sameObjects)] init)))
       = adapterGets init @ [identityOf \<lparr>dbName = None, storeName = None\<rparr> ''k'']"
    by blast
  have rs: "fst (getStoreN ''k'' \<lparr>dbName = None, storeName = None\<rparr>
        [(JNull, validateWithSchema numberSchema, defaultIsEqual sameObjects),
         (JNull, validateWithSchema stringSchema, defaultIsEqual sameObjects)] init) = [0, 0]"
    unfolding n r0 by simp
  have i: "identityOf \<lparr>dbName = None, storeName = None\<rparr> ''k'' = (None, None, ''k'')"
    by (simp add: identityOf_def)
  from fresh rs h show ?thesis
    unfolding g0 i by simp
qed

text \<open>
  C2. Whatever candidate \<open>next\<close> the hook's \<open>setValue\<close> is called with, either it
  returns early and the state is untouched, or it calls \<open>store.setValue\<close> once,
  with a value \<open>safe\<close> that is \<open>null\<close>, or passes the hook's \<open>isValid\<close>, or is the
  Store's pinned \<open>repairTo\<close>. No other value reaches \<open>store.setValue\<close>.
\<close>

theorem setValue_forwards_valid_or_repair:
  "case setValue_safe (stores s ! hookStore h) (hookValue h) (hookIsValid h) next of
     None \<Rightarrow> setValue h next s = s
   | Some safe \<Rightarrow>
       setValue h next s = Store_setValue (hookStore h) safe s
       \<and> (safe = JNull \<or> hookIsValid h safe \<or> safe = repairTo (stores s ! hookStore h))"
  by (simp add: setValue_def setValue_safe_def)

theorem setValue_forwards_valid_or_repair_witness:
  "setValue_safe (stores sysA ! hookStore hookA) (hookValue hookA) (hookIsValid hookA)
      (JNumber (Finite 1)) = Some (JNumber (Finite 1))
   \<and> setValue hookA (JNumber (Finite 1)) sysA = Store_setValue (hookStore hookA) (JNumber (Finite 1)) sysA
   \<and> hookIsValid hookA (JNumber (Finite 1))"
proof -
  have a: "setValue_safe (stores sysA ! hookStore hookA) (hookValue hookA) (hookIsValid hookA)
      (JNumber (Finite 1)) = Some (JNumber (Finite 1))"
    by (simp add: hookA_eval setValue_safe_def isEqual_sysA not_eq_undefined_number numberSchema_eval)
  have b: "hookIsValid hookA (JNumber (Finite 1))"
    by (simp add: hookA_eval numberSchema_eval)
  from setValue_forwards_valid_or_repair
    [where s = sysA and h = hookA and ?next = "JNumber (Finite 1)", unfolded a]
  have c: "setValue hookA (JNumber (Finite 1)) sysA = Store_setValue (hookStore hookA) (JNumber (Finite 1)) sysA"
    by simp
  from a b c show ?thesis by blast
qed

text \<open>
  C3. For every value \<open>v\<close> that the hook's \<open>isValid\<close> rejects and the equality check
  does not suppress, \<open>setValue(v)\<close> passes the Store's pinned \<open>repairTo\<close> to
  \<open>store.setValue\<close> in place of \<open>v\<close>: the stored value becomes \<open>repairTo\<close>, the one
  write issued to the backing adapter carries \<open>repairTo\<close>, and the listeners are
  notified. So \<open>v\<close> is neither stored nor persisted (a \<open>repairTo\<close> that is itself
  the value \<open>v\<close> apart, which takes a \<open>repairTo\<close> the hook's \<open>isValid\<close> rejects).
  \<open>setValue\<close> has no \<open>throw\<close> and \<open>safeParse\<close> reports failure in its result, so
  the call returns normally: the model is a total function with no error branch.
\<close>

theorem setValue_invalid_repairs:
  assumes "hookStore h < length (stores s)"
    and "\<not> hookIsValid h v"
    and "\<not> isEqual (stores s ! hookStore h) (hookValue h) v"
  shows "setValue_safe (stores s ! hookStore h) (hookValue h) (hookIsValid h) v
           = Some (repairTo (stores s ! hookStore h))
     \<and> setValue h v s = Store_setValue (hookStore h) (repairTo (stores s ! hookStore h)) s
     \<and> storeValue (stores (setValue h v s) ! hookStore h) = repairTo (stores s ! hookStore h)
     \<and> adapterPuts (setValue h v s)
          = adapterPuts s @ [(ident (stores s ! hookStore h), repairTo (stores s ! hookStore h))]
     \<and> notified (setValue h v s) = notified s @ listeners (stores s ! hookStore h)
     \<and> (repairTo (stores s ! hookStore h) \<noteq> v \<longrightarrow>
          storeValue (stores (setValue h v s) ! hookStore h) \<noteq> v
          \<and> (ident (stores s ! hookStore h), v)
              \<notin> set (drop (length (adapterPuts s)) (adapterPuts (setValue h v s))))"
proof -
  let ?st = "stores s ! hookStore h"
  have safe: "setValue_safe ?st (hookValue h) (hookIsValid h) v = Some (repairTo ?st)"
    using assms(2,3) by (simp add: setValue_safe_def)
  then have sv: "setValue h v s = Store_setValue (hookStore h) (repairTo ?st) s"
    by (simp add: setValue_def)
  have val: "storeValue (stores (setValue h v s) ! hookStore h) = repairTo ?st"
    unfolding sv using assms(1) by (simp add: Store_setValue_def)
  have puts: "adapterPuts (setValue h v s) = adapterPuts s @ [(ident ?st, repairTo ?st)]"
    unfolding sv using assms(1) by (simp add: Store_setValue_def)
  have nots: "notified (setValue h v s) = notified s @ listeners ?st"
    unfolding sv using assms(1) by (simp add: Store_setValue_def)
  have never: "repairTo ?st \<noteq> v \<longrightarrow>
          storeValue (stores (setValue h v s) ! hookStore h) \<noteq> v
          \<and> (ident ?st, v) \<notin> set (drop (length (adapterPuts s)) (adapterPuts (setValue h v s)))"
    unfolding val puts by simp
  from safe sv val puts nots never show ?thesis by blast
qed

theorem setValue_invalid_repairs_witness:
  "storeValue (stores (setValue hookA (JString ''x'') sysA) ! 0) = JNull
   \<and> adapterPuts (setValue hookA (JString ''x'') sysA) = [((None, None, ''k''), JNull)]
   \<and> setValue_safe (stores sysA ! 0) (hookValue hookA) (hookIsValid hookA) (JString ''x'') = Some JNull
   \<and> storeValue (stores (setValue hookA (JString ''x'') sysA) ! 0) \<noteq> JString ''x''"
proof -
  have 1: "hookStore hookA < length (stores sysA)" by (simp add: hookA_eval length_sysA)
  have 2: "\<not> hookIsValid hookA (JString ''x'')" by (simp add: hookA_eval numberSchema_eval)
  have 3: "\<not> isEqual (stores sysA ! hookStore hookA) (hookValue hookA) (JString ''x'')"
    by (simp add: hookA_eval isEqual_sysA not_eq_undefined_number)
  have 4: "hookStore hookA = 0" by (simp add: hookA_eval)
  note t = setValue_invalid_repairs [OF 1 2 3, unfolded 4 repairTo_sysA ident_sysA logs_sysA append_Nil]
  from t have a: "storeValue (stores (setValue hookA (JString ''x'') sysA) ! 0) = JNull"
    by blast
  from t have b: "adapterPuts (setValue hookA (JString ''x'') sysA) = [((None, None, ''k''), JNull)]"
    by blast
  from t have c: "setValue_safe (stores sysA ! 0) (hookValue hookA) (hookIsValid hookA) (JString ''x'') = Some JNull"
    by blast
  have "JNull \<noteq> JString ''x''" by simp
  with t have d: "storeValue (stores (setValue hookA (JString ''x'') sysA) ! 0) \<noteq> JString ''x''"
    by blast
  from a b c d show ?thesis by blast
qed

text \<open>
  C4, as stated, fails when the current value is read as the Store's: the
  callback compares \<open>next\<close> with \<open>value\<close>, the snapshot of \<open>store.value\<close> its hook took
  when it last rendered. On the concrete page with listener \<open>7\<close> attached, the
  first component has called \<open>setValue(1)\<close> and has not rendered again; the Store
  holds \<open>1\<close>, so \<open>store.isEqual(store.value, 1)\<close> is true, but the same callback still
  holds \<open>value = undefined\<close>: a second \<open>setValue(1)\<close> calls \<open>store.setValue\<close> again,
  notifies the listener again and issues a second write.
\<close>

theorem setValue_equal_counterexample:
  "storeValue (stores sysW ! hookStore hookA) = JNumber (Finite 1)
   \<and> isEqual (stores sysW ! hookStore hookA) (storeValue (stores sysW ! hookStore hookA))
        (JNumber (Finite 1))
   \<and> hookValue hookA = JUndefined
   \<and> setValue hookA (JNumber (Finite 1)) sysW \<noteq> sysW
   \<and> adapterPuts sysW = [((None, None, ''k''), JNumber (Finite 1))]
   \<and> adapterPuts (setValue hookA (JNumber (Finite 1)) sysW)
       = [((None, None, ''k''), JNumber (Finite 1)), ((None, None, ''k''), JNumber (Finite 1))]
   \<and> notified sysW = [7]
   \<and> notified (setValue hookA (JNumber (Finite 1)) sysW) = [7, 7]"
proof -
  have sv: "setValue hookA (JNumber (Finite 1)) sysW = Store_setValue 0 (JNumber (Finite 1)) sysW"
    by (simp add: setValue_def setValue_safe_def hookA_eval sysW_eval newStore_def
        not_eq_undefined_number numberSchema_eval)
  have p: "adapterPuts (Store_setValue 0 (JNumber (Finite 1)) sysW)
       = [((None, None, ''k''), JNumber (Finite 1)), ((None, None, ''k''), JNumber (Finite 1))]"
    by (simp add: Store_setValue_def sysW_eval newStore_def)
  have n: "notified (Store_setValue 0 (JNumber (Finite 1)) sysW) = [7, 7]"
    by (simp add: Store_setValue_def sysW_eval newStore_def)
  have ne: "Store_setValue 0 (JNumber (Finite 1)) sysW \<noteq> sysW"
  proof
    assume "Store_setValue 0 (JNumber (Finite 1)) sysW = sysW"
    then have "notified (Store_setValue 0 (JNumber (Finite 1)) sysW) = notified sysW" by simp
    then show False unfolding n by (simp add: sysW_eval)
  qed
  have a: "storeValue (stores sysW ! hookStore hookA) = JNumber (Finite 1)"
    by (simp add: hookA_eval sysW_eval)
  have b: "isEqual (stores sysW ! hookStore hookA) (storeValue (stores sysW ! hookStore hookA))
        (JNumber (Finite 1))"
    by (simp add: hookA_eval sysW_eval newStore_def eq_one_one)
  have c: "hookValue hookA = JUndefined" by (simp add: hookA_eval)
  have d: "adapterPuts sysW = [((None, None, ''k''), JNumber (Finite 1))]" "notified sysW = [7]"
    by (simp_all add: sysW_eval)
  from a b c d ne p n show ?thesis unfolding sv by blast
qed

text \<open>
  C4, amended. For every candidate \<open>v\<close> with \<open>store.isEqual(value, v)\<close> true, where
  \<open>value\<close> is the value the hook holds, its snapshot of \<open>store.value\<close> taken when it
  rendered (the Store's value at that time), \<open>setValue(v)\<close> is a no-op:
  \<open>store.setValue\<close> is not called, no listener is notified, no write is issued, and
  the whole state is unchanged.
\<close>

theorem setValue_equal_noop:
  assumes "isEqual (stores s ! hookStore h) (hookValue h) v"
  shows "setValue_safe (stores s ! hookStore h) (hookValue h) (hookIsValid h) v = None
     \<and> setValue h v s = s
     \<and> notified (setValue h v s) = notified s
     \<and> adapterPuts (setValue h v s) = adapterPuts s
     \<and> stores (setValue h v s) = stores s
     \<and> hookValue (fst (useLocalDb eq k schema iv db sn s0))
         = storeValue (stores (snd (useLocalDb eq k schema iv db sn s0))
             ! hookStore (fst (useLocalDb eq k schema iv db sn s0)))"
  using assms by (simp add: setValue_def setValue_safe_def useLocalDb_eq)

theorem setValue_equal_noop_witness:
  "isEqual (stores sysA ! hookStore hookA) (hookValue hookA) JUndefined
   \<and> setValue hookA JUndefined sysA = sysA
   \<and> isEqual (stores sysW ! hookStore hookW) (hookValue hookW) (JNumber (Finite 1))
   \<and> setValue hookW (JNumber (Finite 1)) sysW = sysW"
proof -
  have 1: "isEqual (stores sysA ! hookStore hookA) (hookValue hookA) JUndefined"
    by (simp add: hookA_eval isEqual_sysA not_eq_undefined_number)
  have 2: "isEqual (stores sysW ! hookStore hookW) (hookValue hookW) (JNumber (Finite 1))"
    by (simp add: hookW_eval sysW_eval newStore_def eq_one_one)
  from setValue_equal_noop [OF 1] have a: "setValue hookA JUndefined sysA = sysA" by blast
  from setValue_equal_noop [OF 2] have b: "setValue hookW (JNumber (Finite 1)) sysW = sysW" by blast
  from 1 2 a b show ?thesis by blast
qed

text \<open>
  C5, as stated, fails: a write validates with the \<open>isValid\<close> of the hook instance
  that makes it, not with the one pinned in the Store. On the concrete page the
  Store was created by the first component, so its pinned \<open>isValid\<close> is the one of
  \<open>z.number()\<close>; the second component, with \<open>z.string()\<close>, gets the same Store. Its
  \<open>setValue(1)\<close> forwards \<open>repairTo\<close> although the pinned predicate accepts \<open>1\<close>, and
  its \<open>setValue("x")\<close> forwards and stores \<open>"x"\<close> although the pinned predicate
  rejects it.
\<close>

theorem write_predicates_counterexample:
  "hookStore hookB = hookStore hookA
   \<and> isValid (stores sysB ! hookStore hookB) = validateWithSchema numberSchema
   \<and> hookIsValid hookB = validateWithSchema stringSchema
   \<and> isValid (stores sysB ! hookStore hookB) (JNumber (Finite 1))
   \<and> setValue_safe (stores sysB ! hookStore hookB) (hookValue hookB) (hookIsValid hookB)
        (JNumber (Finite 1)) = Some JNull
   \<and> \<not> isValid (stores sysB ! hookStore hookB) (JString ''x'')
   \<and> setValue_safe (stores sysB ! hookStore hookB) (hookValue hookB) (hookIsValid hookB)
        (JString ''x'') = Some (JString ''x'')
   \<and> storeValue (stores (setValue hookB (JString ''x'') sysB) ! hookStore hookB) = JString ''x''"
proof -
  have v: "isValid (stores sysA ! 0) = validateWithSchema numberSchema"
    by (simp add: sysA_eval newStore_def)
  have s1: "setValue_safe (stores sysA ! 0) JUndefined (validateWithSchema stringSchema)
        (JNumber (Finite 1)) = Some JNull"
    by (simp add: setValue_safe_def isEqual_sysA repairTo_sysA not_eq_undefined_number numberSchema_eval)
  have s2: "setValue_safe (stores sysA ! 0) JUndefined (validateWithSchema stringSchema)
        (JString ''x'') = Some (JString ''x'')"
    by (simp add: setValue_safe_def isEqual_sysA repairTo_sysA not_eq_undefined_number numberSchema_eval)
  have s3: "storeValue (stores (setValue hookB (JString ''x'') sysA) ! 0) = JString ''x''"
    by (simp add: setValue_def hookB_eval s2 Store_setValue_def length_sysA)
  show ?thesis
    unfolding sysB_eval
    by (simp add: hookA_eval hookB_eval v s1 s2 s3 [unfolded hookB_eval] numberSchema_eval)
qed

text \<open>
  C5, amended. Let a first hook instance create the Store of an identity, with
  equality predicate \<open>eqA\<close>, schema \<open>schemaA\<close> and initial value \<open>ivA\<close>, and let a later
  instance ask for the same identity with \<open>eqB\<close>, \<open>schemaB\<close> and \<open>ivB\<close>, after any run
  of actions. The later instance gets the same Store, unchanged. A write through
  it applies the equality predicate pinned at creation (\<open>eqA\<close>; \<open>eqB\<close> is ignored)
  and falls back to the \<open>repairTo\<close> pinned at creation (\<open>ivA\<close>, or \<open>null\<close>), but
  validates with the writing instance's own schema (\<open>schemaB\<close>).
\<close>

theorem write_predicates:
  assumes fresh: "registry s (identityOf \<lparr>dbName = db, storeName = sn\<rparr> k) = None"
  shows "hookStore (fst (useLocalDb eqB k schemaB ivB db sn
                      (run as (snd (useLocalDb eqA k schemaA ivA db sn s)))))
           = hookStore (fst (useLocalDb eqA k schemaA ivA db sn s))
     \<and> snd (useLocalDb eqB k schemaB ivB db sn (run as (snd (useLocalDb eqA k schemaA ivA db sn s))))
           = run as (snd (useLocalDb eqA k schemaA ivA db sn s))
     \<and> setValue_safe
          (stores (run as (snd (useLocalDb eqA k schemaA ivA db sn s)))
             ! hookStore (fst (useLocalDb eqB k schemaB ivB db sn
                      (run as (snd (useLocalDb eqA k schemaA ivA db sn s))))))
          val
          (hookIsValid (fst (useLocalDb eqB k schemaB ivB db sn
                      (run as (snd (useLocalDb eqA k schemaA ivA db sn s))))))
          v
        = (if eqA val v then None
           else Some (if validateWithSchema schemaB v then v
                      else if ivA = JUndefined then JNull else ivA))"
proof -
  let ?ns = "\<lparr>dbName = db, storeName = sn\<rparr>"
  let ?ivA = "if ivA = JUndefined then JNull else ivA"
  let ?ivB = "if ivB = JUndefined then JNull else ivB"
  let ?r = "fst (getStore k ?ivA (validateWithSchema schemaA) eqA ?ns s)"
  let ?sA = "snd (getStore k ?ivA (validateWithSchema schemaA) eqA ?ns s)"
  let ?sB = "run as ?sA"
  have lt: "?r < length (stores ?sA)"
    and eq: "isEqual (stores ?sA ! ?r) = eqA"
    and rep: "repairTo (stores ?sA ! ?r) = ?ivA"
    using getStore_fresh_hydration [OF fresh] by simp_all
  have regA: "registry ?sA (identityOf ?ns k) = Some ?r" by (rule getStore_registers)
  then have regB: "registry ?sB (identityOf ?ns k) = Some ?r" by (rule run_registry)
  have gB: "getStore k ?ivB (validateWithSchema schemaB) eqB ?ns ?sB = (?r, ?sB)"
    using regB by (rule getStore_present)
  have pin: "isEqual (stores ?sB ! ?r) = eqA" "repairTo (stores ?sB ! ?r) = ?ivA"
    using run_pinned [OF lt, of as] eq rep by simp_all
  show ?thesis
    unfolding useLocalDb_eq fst_conv snd_conv gB
    by (simp add: setValue_safe_def pin)
qed

theorem write_predicates_witness:
  "registry init (identityOf \<lparr>dbName = None, storeName = None\<rparr> ''k'') = None
   \<and> hookStore hookB = hookStore hookA
   \<and> setValue_safe (stores sysA ! hookStore hookB) JUndefined (hookIsValid hookB) (JNumber (Finite 1))
       = Some JNull"
proof -
  have fresh: "registry init (identityOf \<lparr>dbName = None, storeName = None\<rparr> ''k'') = None"
    by (simp add: init_def)
  note t = write_predicates [OF fresh, where eqA = "defaultIsEqual sameObjects"
      and eqB = "defaultIsEqual sameObjects" and schemaA = numberSchema
      and schemaB = stringSchema and ivA = JUndefined and ivB = JUndefined and as = "[]"
      and val = JUndefined and v = "JNumber (Finite 1)",
      unfolded run_Nil, folded sysA_def hookA_def, folded hookB_def]
  from t have a: "hookStore hookB = hookStore hookA" by blast
  from t have "setValue_safe (stores sysA ! hookStore hookB) JUndefined (hookIsValid hookB) (JNumber (Finite 1))
       = (if defaultIsEqual sameObjects JUndefined (JNumber (Finite 1)) then None
           else Some (if validateWithSchema stringSchema (JNumber (Finite 1)) then JNumber (Finite 1)
                      else if JUndefined = JUndefined then JNull else JUndefined))"
    by blast
  then have b: "setValue_safe (stores sysA ! hookStore hookB) JUndefined (hookIsValid hookB) (JNumber (Finite 1))
       = Some JNull"
    by (simp add: not_eq_undefined_number numberSchema_eval)
  from fresh a b show ?thesis by blast
qed

text \<open>
  C6. For every schema, \<open>validateWithSchema(schema, null)\<close> is true: \<open>null\<close> never
  reaches the schema. Hence \<open>setValue(null)\<close> is never replaced by \<open>repairTo\<close>: it
  either is suppressed by the equality check or forwards \<open>null\<close>, and then the
  stored value becomes \<open>null\<close> and a \<open>null\<close> record is written, whatever the schema.
\<close>

theorem null_always_valid:
  "validateWithSchema schema JNull
   \<and> hookIsValid (fst (useLocalDb eq k schema iv db sn s0)) JNull
   \<and> setValue_safe st val (validateWithSchema schema) JNull
       = (if isEqual st val JNull then None else Some JNull)
   \<and> (hookIsValid h = validateWithSchema schema \<and> hookStore h < length (stores s)
        \<and> \<not> isEqual (stores s ! hookStore h) (hookValue h) JNull
      \<longrightarrow> setValue h JNull s = Store_setValue (hookStore h) JNull s
          \<and> storeValue (stores (setValue h JNull s) ! hookStore h) = JNull
          \<and> adapterPuts (setValue h JNull s) = adapterPuts s @ [(ident (stores s ! hookStore h), JNull)])"
proof -
  have v: "validateWithSchema schema JNull"
    by (simp add: validateWithSchema_def strictEq_def)
  have hv: "hookIsValid (fst (useLocalDb eq k schema iv db sn s0)) JNull"
    by (simp add: useLocalDb_eq v)
  have safe: "setValue_safe st val (validateWithSchema schema) JNull
       = (if isEqual st val JNull then None else Some JNull)" for st val
    by (simp add: setValue_safe_def v)
  have w: "setValue h JNull s = Store_setValue (hookStore h) JNull s
          \<and> storeValue (stores (setValue h JNull s) ! hookStore h) = JNull
          \<and> adapterPuts (setValue h JNull s) = adapterPuts s @ [(ident (stores s ! hookStore h), JNull)]"
    if "hookIsValid h = validateWithSchema schema" "hookStore h < length (stores s)"
      "\<not> isEqual (stores s ! hookStore h) (hookValue h) JNull"
  proof -
    have "setValue h JNull s = Store_setValue (hookStore h) JNull s"
      using that by (simp add: setValue_def safe)
    then show ?thesis using that(2) by (simp add: Store_setValue_def)
  qed
  from v hv safe w show ?thesis by blast
qed

theorem null_always_valid_witness:
  "hookIsValid hookA = validateWithSchema numberSchema
   \<and> \<not> success (safeParse numberSchema JNull)
   \<and> storeValue (stores (setValue hookA JNull sysA) ! 0) = JNull
   \<and> adapterPuts (setValue hookA JNull sysA) = [((None, None, ''k''), JNull)]"
proof -
  have 1: "hookIsValid hookA = validateWithSchema numberSchema" by (simp add: hookA_eval)
  have 2: "hookStore hookA < length (stores sysA)" by (simp add: hookA_eval length_sysA)
  have 3: "\<not> isEqual (stores sysA ! hookStore hookA) (hookValue hookA) JNull"
    by (simp add: hookA_eval isEqual_sysA not_eq_undefined_number)
  have 4: "hookStore hookA = 0" by (simp add: hookA_eval)
  have 5: "\<not> success (safeParse numberSchema JNull)" by (simp add: numberSchema_def)
  note t = null_always_valid [where schema = numberSchema and h = hookA and s = sysA]
  from t 1 2 3
  have "storeValue (stores (setValue hookA JNull sysA) ! hookStore hookA) = JNull"
    by blast
  then have a: "storeValue (stores (setValue hookA JNull sysA) ! 0) = JNull"
    unfolding 4 .
  from t 1 2 3
  have "adapterPuts (setValue hookA JNull sysA) = adapterPuts sysA @ [(ident (stores sysA ! hookStore hookA), JNull)]"
    by blast
  then have b: "adapterPuts (setValue hookA JNull sysA) = [((None, None, ''k''), JNull)]"
    unfolding 4 by (simp add: logs_sysA ident_sysA)
  from 1 5 a b show ?thesis by blast
qed

text \<open>
  C7. For every pair \<open>(a, b)\<close>, \<open>defaultIsEqual\<close> first tests \<open>a === b\<close> and returns
  true on success; if that fails and either side is \<open>null\<close> or \<open>undefined\<close>, or
  either side is not of type object, it returns false without calling the deep
  comparator; the deep comparator is called, once and with \<open>(a, b)\<close>, exactly when
  \<open>a !== b\<close> and both sides are non-null objects, and then decides the result.
\<close>

theorem defaultIsEqual_short_circuit:
  "(strictEq a b \<longrightarrow> defaultIsEqual_run deepEqual a b = (True, []))
   \<and> (\<not> strictEq a b \<and>
        (a = JNull \<or> a = JUndefined \<or> b = JNull \<or> b = JUndefined
         \<or> typeof a \<noteq> ''object'' \<or> typeof b \<noteq> ''object'')
       \<longrightarrow> defaultIsEqual_run deepEqual a b = (False, []))
   \<and> (\<not> strictEq a b \<and> a \<noteq> JNull \<and> b \<noteq> JNull \<and> typeof a = ''object'' \<and> typeof b = ''object''
       \<longrightarrow> defaultIsEqual_run deepEqual a b = (deepEqual a b, [(a, b)]))
   \<and> (snd (defaultIsEqual_run deepEqual a b) \<noteq> []
       \<longrightarrow> a \<noteq> JNull \<and> b \<noteq> JNull \<and> typeof a = ''object'' \<and> typeof b = ''object'')"
proof -
  have c1: "strictEq a b \<longrightarrow> defaultIsEqual_run deepEqual a b = (True, [])"
    by (simp add: defaultIsEqual_run_def)
  have c2: "\<not> strictEq a b \<and>
        (a = JNull \<or> a = JUndefined \<or> b = JNull \<or> b = JUndefined
         \<or> typeof a \<noteq> ''object'' \<or> typeof b \<noteq> ''object'')
       \<longrightarrow> defaultIsEqual_run deepEqual a b = (False, [])"
    unfolding defaultIsEqual_run_def by auto
  have c3: "\<not> strictEq a b \<and> a \<noteq> JNull \<and> b \<noteq> JNull \<and> typeof a = ''object'' \<and> typeof b = ''object''
       \<longrightarrow> defaultIsEqual_run deepEqual a b = (deepEqual a b, [(a, b)])"
    by (simp add: defaultIsEqual_run_def ToBoolean_object)
  have c4: "snd (defaultIsEqual_run deepEqual a b) \<noteq> []
       \<longrightarrow> a \<noteq> JNull \<and> b \<noteq> JNull \<and> typeof a = ''object'' \<and> typeof b = ''object''"
    unfolding defaultIsEqual_run_def by (auto split: if_splits)
  from c1 c2 c3 c4 show ?thesis by blast
qed

theorem defaultIsEqual_short_circuit_witness:
  "defaultIsEqual_run sameObjects (JString ''a'') (JString ''a'') = (True, [])
   \<and> defaultIsEqual_run sameObjects (JNumber (Finite 1)) (JObject 0) = (False, [])
   \<and> defaultIsEqual_run sameObjects (JObject 0) (JObject 1) = (True, [(JObject 0, JObject 1)])
   \<and> snd (defaultIsEqual_run sameObjects (JObject 0) (JObject 1)) \<noteq> []"
proof -
  have 1: "strictEq (JString ''a'') (JString ''a'')" by (simp add: strictEq_def)
  have 2: "\<not> strictEq (JNumber (Finite 1)) (JObject 0)" by (simp add: strictEq_def)
  have 3: "\<not> strictEq (JObject 0) (JObject 1)" by (simp add: strictEq_def)
  show ?thesis
    using defaultIsEqual_short_circuit [of "JString ''a''" "JString ''a''" sameObjects]
      defaultIsEqual_short_circuit [of "JNumber (Finite 1)" "JObject 0" sameObjects]
      defaultIsEqual_short_circuit [of "JObject 0" "JObject 1" sameObjects] 1 2 3
    by (simp add: sameObjects_def)
qed

text \<open>
  C8. \<open>hydrate()\<close> is idempotent. Called on a Store whose hydration is \<open>Done\<close> or
  \<open>InFlight\<close> it changes nothing, so no second read is issued; called \<open>k \<ge> 1\<close> times
  in a row on a Store not yet hydrated it issues exactly one read, as one call
  does; and in any run of actions from a reachable state, however \<open>hydrate()\<close>
  calls, settled reads, writes and other Stores' actions interleave, the reads
  issued for the Store's identity grow by exactly one if the Store was not yet
  hydrated and \<open>hydrate()\<close> is called at least once, and not at all if its
  hydration had started before.
\<close>

theorem hydrate_idempotent:
  "(hydrationState (stores s ! r) = Done \<or> hydrationState (stores s ! r) = InFlight
      \<longrightarrow> Store_hydrate r s = s)
   \<and> (r < length (stores s) \<and> hydrationState (stores s ! r) = NotStarted \<and> 1 \<le> k
      \<longrightarrow> adapterGets ((Store_hydrate r ^^ k) s) = adapterGets s @ [ident (stores s ! r)]
          \<and> (Store_hydrate r ^^ k) s = Store_hydrate r s)
   \<and> (r < length (stores (run pre init))
       \<and> hydrationState (stores (run pre init) ! r) = NotStarted \<and> Hydrate r \<in> set as
      \<longrightarrow> count_list (adapterGets (run as (run pre init))) (ident (stores (run pre init) ! r))
          = count_list (adapterGets (run pre init)) (ident (stores (run pre init) ! r)) + 1)
   \<and> (r < length (stores (run pre init))
       \<and> hydrationState (stores (run pre init) ! r) \<noteq> NotStarted
      \<longrightarrow> count_list (adapterGets (run as (run pre init))) (ident (stores (run pre init) ! r))
          = count_list (adapterGets (run pre init)) (ident (stores (run pre init) ! r)))"
proof -
  have c1: "hydrationState (stores s ! r) = Done \<or> hydrationState (stores s ! r) = InFlight
      \<longrightarrow> Store_hydrate r s = s"
    by (auto simp: Store_hydrate_started)
  have c2: "adapterGets ((Store_hydrate r ^^ k) s) = adapterGets s @ [ident (stores s ! r)]
          \<and> (Store_hydrate r ^^ k) s = Store_hydrate r s"
    if "r < length (stores s)" "hydrationState (stores s ! r) = NotStarted" "1 \<le> k"
  proof -
    from that(3) obtain j where "k = Suc j" by (cases k) auto
    then have "(Store_hydrate r ^^ k) s = Store_hydrate r s"
      by (simp only: Store_hydrate_funpow)
    then show ?thesis using that(1,2) by (simp add: Store_hydrate_first)
  qed
  have inv: "reg_inv (run pre init)"
    by (rule run_reg_inv [OF reg_inv_init])
  have c3: "r < length (stores (run pre init))
       \<and> hydrationState (stores (run pre init) ! r) = NotStarted \<and> Hydrate r \<in> set as
      \<longrightarrow> count_list (adapterGets (run as (run pre init))) (ident (stores (run pre init) ! r))
          = count_list (adapterGets (run pre init)) (ident (stores (run pre init) ! r)) + 1"
    using run_gets [OF inv, of r as] by simp
  have c4: "r < length (stores (run pre init))
       \<and> hydrationState (stores (run pre init) ! r) \<noteq> NotStarted
      \<longrightarrow> count_list (adapterGets (run as (run pre init))) (ident (stores (run pre init) ! r))
          = count_list (adapterGets (run pre init)) (ident (stores (run pre init) ! r))"
    using run_gets [OF inv, of r as] by simp
  from c1 c2 c3 c4 show ?thesis by blast
qed

theorem hydrate_idempotent_witness:
  "count_list (adapterGets (run [Hydrate 0, Hydrate 0, ReadSettled 0 NotFound, Hydrate 0] sysA))
      (None, None, ''k'') = 1
   \<and> adapterGets ((Store_hydrate 0 ^^ 3) sysA) = [(None, None, ''k'')]
   \<and> Store_hydrate 0 (Store_hydrate 0 sysA) = Store_hydrate 0 sysA
   \<and> count_list (adapterGets (run [Hydrate 0, ReadSettled 0 NotFound, Hydrate 0] (Store_hydrate 0 sysA)))
      (None, None, ''k'') = 1"
proof -
  note t = hydrate_idempotent
    [where r = 0 and k = 3
       and pre = "[GetStore ''k'' JNull (validateWithSchema numberSchema) (defaultIsEqual sameObjects)
            \<lparr>dbName = None, storeName = None\<rparr>]"
       and as = "[Hydrate 0, Hydrate 0, ReadSettled 0 NotFound, Hydrate 0]", unfolded run_mount_sysA]
  have h: "0 < length (stores sysA)" "hydrationState (stores sysA ! 0) = NotStarted" "(1::nat) \<le> 3"
    "Hydrate 0 \<in> set [Hydrate 0, Hydrate 0, ReadSettled 0 NotFound, Hydrate 0]"
    by (simp_all add: length_sysA hydration_sysA)
  from t [where s = sysA] h
  have "count_list (adapterGets (run [Hydrate 0, Hydrate 0, ReadSettled 0 NotFound, Hydrate 0] sysA))
      (ident (stores sysA ! 0)) = count_list (adapterGets sysA) (ident (stores sysA ! 0)) + 1"
    by blast
  then have a: "count_list (adapterGets (run [Hydrate 0, Hydrate 0, ReadSettled 0 NotFound, Hydrate 0] sysA))
      (None, None, ''k'') = 1"
    by (simp add: ident_sysA logs_sysA)
  from t [where s = sysA] h
  have "adapterGets ((Store_hydrate 0 ^^ 3) sysA) = adapterGets sysA @ [ident (stores sysA ! 0)]"
    by blast
  then have b: "adapterGets ((Store_hydrate 0 ^^ 3) sysA) = [(None, None, ''k'')]"
    by (simp add: ident_sysA logs_sysA)
  have fl: "hydrationState (stores (Store_hydrate 0 sysA) ! 0) = InFlight"
    by (simp add: Store_hydrate_first length_sysA hydration_sysA)
  from t [where s = "Store_hydrate 0 sysA"] fl
  have c: "Store_hydrate 0 (Store_hydrate 0 sysA) = Store_hydrate 0 sysA"
    by blast
  have lt: "0 < length (stores (Store_hydrate 0 sysA))"
    by (simp add: Store_hydrate_frame length_sysA)
  have started: "hydrationState (stores (Store_hydrate 0 sysA) ! 0) \<noteq> NotStarted"
    by (simp add: fl)
  have id1: "ident (stores (Store_hydrate 0 sysA) ! 0) = (None, None, ''k'')"
    by (simp add: Store_hydrate_frame ident_sysA)
  have g1: "adapterGets (Store_hydrate 0 sysA) = [(None, None, ''k'')]"
    using h(1,2) by (simp add: Store_hydrate_first ident_sysA logs_sysA)
  note u = hydrate_idempotent
    [where r = 0
       and pre = "[GetStore ''k'' JNull (validateWithSchema numberSchema) (defaultIsEqual sameObjects)
            \<lparr>dbName = None, storeName = None\<rparr>, Hydrate 0]"
       and as = "[Hydrate 0, ReadSettled 0 NotFound, Hydrate 0]", unfolded run_mount_started]
  from u lt started
  have "count_list (adapterGets (run [Hydrate 0, ReadSettled 0 NotFound, Hydrate 0] (Store_hydrate 0 sysA)))
          (ident (stores (Store_hydrate 0 sysA) ! 0))
        = count_list (adapterGets (Store_hydrate 0 sysA)) (ident (stores (Store_hydrate 0 sysA) ! 0))"
    by blast
  then have d: "count_list (adapterGets (run [Hydrate 0, ReadSettled 0 NotFound, Hydrate 0] (Store_hydrate 0 sysA)))
      (None, None, ''k'') = 1"
    unfolding id1 g1 by simp
  from a b c d show ?thesis by blast
qed

text \<open>
  C9, as stated, fails when \<open>cb\<close> is already subscribed: \<open>Set.add\<close> then adds
  nothing and the returned unsubscribe removes \<open>cb\<close>, so the listener set after
  the round trip has lost \<open>cb\<close>. On the concrete page with listener \<open>7\<close> attached,
  subscribing \<open>7\<close> again and calling the returned function leaves no listener.
\<close>

theorem subscribe_counterexample:
  "listeners (stores sysL ! 0) = [7]
   \<and> listeners (stores (snd (fst (subscribe 0 7 sysL) (snd (subscribe 0 7 sysL)))) ! 0) = []
   \<and> listeners (stores (snd (fst (subscribe 0 7 sysL) (snd (subscribe 0 7 sysL)))) ! 0)
       \<noteq> listeners (stores sysL ! 0)"
  by (simp add: sysL_eval subscribe_def unsubscribe_def Set_add_def Set_delete_def)

text \<open>
  C9, amended. For every listener \<open>cb\<close>, \<open>subscribe(cb)\<close> adds \<open>cb\<close> to the Store's
  listener set and returns an unsubscribe function that removes exactly \<open>cb\<close>,
  keeping the others in order. Subscribe followed by its unsubscribe leaves the
  listener set equal to what it was before without \<open>cb\<close>; when \<open>cb\<close> was not
  subscribed before, that is the set as it was, and the whole state is restored.
\<close>

theorem subscribe_unsubscribe:
  assumes "r < length (stores s)"
  shows "set (listeners (stores (snd (subscribe r cb s)) ! r)) = insert cb (set (listeners (stores s ! r)))
     \<and> fst (subscribe r cb s) = unsubscribe r cb
     \<and> set (listeners (stores (snd (unsubscribe r cb s)) ! r)) = set (listeners (stores s ! r)) - {cb}
     \<and> listeners (stores (snd (unsubscribe r cb s)) ! r) = removeAll cb (listeners (stores s ! r))
     \<and> listeners (stores (snd (fst (subscribe r cb s) (snd (subscribe r cb s)))) ! r)
         = removeAll cb (listeners (stores s ! r))
     \<and> (cb \<notin> set (listeners (stores s ! r)) \<longrightarrow>
          snd (fst (subscribe r cb s) (snd (subscribe r cb s))) = s)"
proof -
  have f: "fst (subscribe r cb s) = unsubscribe r cb"
    by (simp add: subscribe_def)
  have lt': "r < length (stores (snd (subscribe r cb s)))"
    using assms by (simp add: subscribe_frame)
  have a: "set (listeners (stores (snd (subscribe r cb s)) ! r)) = insert cb (set (listeners (stores s ! r)))"
    using assms by (auto simp: subscribe_listeners Set_add_def)
  have b: "listeners (stores (snd (unsubscribe r cb s)) ! r) = removeAll cb (listeners (stores s ! r))"
    using assms by (rule unsubscribe_listeners)
  have c: "listeners (stores (snd (unsubscribe r cb (snd (subscribe r cb s)))) ! r)
         = removeAll cb (listeners (stores s ! r))"
    using assms by (simp add: unsubscribe_listeners [OF lt'] subscribe_listeners removeAll_Set_add)
  have d: "cb \<notin> set (listeners (stores s ! r)) \<longrightarrow> snd (unsubscribe r cb (snd (subscribe r cb s))) = s"
    using assms by (simp add: unsubscribe_after_subscribe_fresh)
  show ?thesis
    unfolding f using a b c d by simp
qed

theorem subscribe_unsubscribe_witness:
  "0 < length (stores sysA) \<and> 7 \<notin> set (listeners (stores sysA ! 0))
   \<and> set (listeners (stores (snd (subscribe 0 7 sysA)) ! 0)) = {7}
   \<and> snd (fst (subscribe 0 7 sysA) (snd (subscribe 0 7 sysA))) = sysA"
proof -
  have 1: "0 < length (stores sysA)" by (simp add: length_sysA)
  have 2: "7 \<notin> set (listeners (stores sysA ! 0))" by (simp add: listeners_sysA)
  from subscribe_unsubscribe [OF 1, of 7] 2
  have a: "snd (fst (subscribe 0 7 sysA) (snd (subscribe 0 7 sysA))) = sysA" by blast
  from subscribe_unsubscribe [OF 1, of 7]
  have "set (listeners (stores (snd (subscribe 0 7 sysA)) ! 0)) = insert 7 (set (listeners (stores sysA ! 0)))"
    by blast
  then have b: "set (listeners (stores (snd (subscribe 0 7 sysA)) ! 0)) = {7}"
    by (simp add: listeners_sysA)
  from 1 2 a b show ?thesis by blast
qed

text \<open>
  C10. Every pair \<open>defaultIsEqual\<close> hands to the deep comparator consists of two
  values of type object that are neither \<open>null\<close> nor \<open>undefined\<close>. For every other
  pair of arguments the deep comparator is not called at all: the result is that
  of \<open>a === b\<close>, the same whatever the deep comparator is.
\<close>

theorem deepEqual_only_on_objects:
  "(\<forall>(x, y) \<in> set (snd (defaultIsEqual_run deepEqual a b)).
      x \<noteq> JNull \<and> x \<noteq> JUndefined \<and> typeof x = ''object''
      \<and> y \<noteq> JNull \<and> y \<noteq> JUndefined \<and> typeof y = ''object'')
   \<and> (\<not> (a \<noteq> JNull \<and> a \<noteq> JUndefined \<and> typeof a = ''object''
          \<and> b \<noteq> JNull \<and> b \<noteq> JUndefined \<and> typeof b = ''object'')
       \<longrightarrow> snd (defaultIsEqual_run deepEqual a b) = []
           \<and> defaultIsEqual deepEqual a b = strictEq a b
           \<and> defaultIsEqual deepEqual a b = defaultIsEqual deepEqual' a b)"
proof -
  have c1: "\<forall>(x, y) \<in> set (snd (defaultIsEqual_run deepEqual a b)).
      x \<noteq> JNull \<and> x \<noteq> JUndefined \<and> typeof x = ''object''
      \<and> y \<noteq> JNull \<and> y \<noteq> JUndefined \<and> typeof y = ''object''"
    unfolding defaultIsEqual_run_def by auto
  have c2: "snd (defaultIsEqual_run deepEqual a b) = []
           \<and> defaultIsEqual deepEqual a b = strictEq a b
           \<and> defaultIsEqual deepEqual a b = defaultIsEqual deepEqual' a b"
    if h: "\<not> (a \<noteq> JNull \<and> a \<noteq> JUndefined \<and> typeof a = ''object''
          \<and> b \<noteq> JNull \<and> b \<noteq> JUndefined \<and> typeof b = ''object'')"
  proof -
    from h have g: "\<not> ToBoolean a \<or> \<not> ToBoolean b \<or> typeof a \<noteq> ''object'' \<or> typeof b \<noteq> ''object''"
      by auto
    then show ?thesis
      unfolding defaultIsEqual_def defaultIsEqual_run_def by auto
  qed
  from c1 c2 show ?thesis by blast
qed

theorem deepEqual_only_on_objects_witness:
  "snd (defaultIsEqual_run sameObjects (JObject 0) (JObject 1)) = [(JObject 0, JObject 1)]
   \<and> snd (defaultIsEqual_run sameObjects (JNumber NaN) (JNumber NaN)) = []
   \<and> \<not> defaultIsEqual sameObjects (JNumber NaN) (JNumber NaN)"
  using deepEqual_only_on_objects [of sameObjects "JObject 0" "JObject 1"]
    deepEqual_only_on_objects [of sameObjects "JNumber NaN" "JNumber NaN"]
  by (simp add: defaultIsEqual_run_def strictEq_def sameObjects_def)

end
